theory Spec2Isabelle
  imports Complex_Main "HOL-Library.Word"
begin

section \<open>Data model\<close>

text \<open>
  The index type of the examples is \<open>uint32_t\<close> (\<open>using Idx = uint32_t\<close>): every
  index, extent and counter is a 32-bit word, and \<open>+\<close>, \<open>*\<close> wrap around modulo
  \<open>2 ^ 32\<close> as the unsigned arithmetic of C++ does.
\<close>

type_synonym u32 = "32 word"

text \<open>
  The C++ type \<open>float\<close> and its operations are not part of the sources: they are a
  parameter of the model. The record holds the operations the sources use: the built-in
  \<open>*\<close>, \<open>+\<close>, \<open>/\<close> and \<open><=\<close>, \<open>math::sqrt(acc, _)\<close>, the conversion of a
  \<open>uint32_t\<close> to \<open>float\<close> and the literal \<open>4.f\<close>.
\<close>

record 'f float_ops =
  f_mul :: "'f \<Rightarrow> 'f \<Rightarrow> 'f"
  f_add :: "'f \<Rightarrow> 'f \<Rightarrow> 'f"
  f_div :: "'f \<Rightarrow> 'f \<Rightarrow> 'f"
  f_sqrt :: "'f \<Rightarrow> 'f"
  f_le :: "'f \<Rightarrow> 'f \<Rightarrow> bool"
  f_of_u32 :: "u32 \<Rightarrow> 'f"
  f_four :: "'f"

text \<open>
  \<open>struct Points { float * x; float * y; bool * inside; }\<close>: three pointers to
  buffers. A buffer is the list of its elements; an access at an index outside the
  buffer is undefined behaviour in C++ and an explicit outcome of the model.
\<close>

record 'f Points =
  x :: "'f list"
  y :: "'f list"
  inside :: "bool list"

text \<open>
  The state of one kernel run: the buffers, and the log of the indices with which
  \<open>processPoint\<close> has been invoked and has returned, in the order of the invocations.
  The log is not in the source; it is what the claims about the visited indices read.
\<close>

record 'f state =
  points :: "'f Points"
  calls :: "u32 list"

text \<open>
  What a piece of code does from a state: it returns, it accesses a buffer out of bounds
  at an index (undefined behaviour; the model stops there), or the model runs out of the
  fuel that bounds the number of iterations of a loop that may run forever. Each outcome
  carries the state (or value) reached.
\<close>

datatype 'a outcome = Returned 'a | OutOfBounds u32 'a | OutOfFuel 'a

primrec reached :: "'a outcome \<Rightarrow> 'a" where
  "reached (Returned s) = s"
| "reached (OutOfBounds i s) = s"
| "reached (OutOfFuel s) = s"

primrec returns :: "'a outcome \<Rightarrow> bool" where
  "returns (Returned s) = True"
| "returns (OutOfBounds i s) = False"
| "returns (OutOfFuel s) = False"

primrec out_of_fuel :: "'a outcome \<Rightarrow> bool" where
  "out_of_fuel (Returned s) = False"
| "out_of_fuel (OutOfBounds i s) = False"
| "out_of_fuel (OutOfFuel s) = True"

text \<open>
  What a kernel reads from its accelerator argument \<open>acc\<close>:
  \<open>idx::getIdx<Grid, Threads>(acc)[0]\<close>, \<open>workdiv::getWorkDiv<Grid, Threads>(acc)[0]\<close>
  and \<open>workdiv::getWorkDiv<Thread, Elems>(acc)[0]\<close>.
\<close>

record Acc =
  gridThreadIdx :: u32
  gridThreadExtent :: u32
  threadElementExtent :: u32

section \<open>The kernels of computePi\_homework\<close>

text \<open>
  \<open>processPoint(acc, points, r, idx)\<close> reads \<open>points.x[idx]\<close> and \<open>points.y[idx]\<close>
  and writes \<open>points.inside[idx]\<close>.
\<close>

definition processPoint :: "'f float_ops \<Rightarrow> 'f state \<Rightarrow> 'f \<Rightarrow> u32 \<Rightarrow> 'f state outcome" where
  "processPoint fl s r idx =
     (let p = points s; i = unat idx in
      if i < length (x p) \<and> i < length (y p) \<and> i < length (inside p) then
        let xv = x p ! i;
            yv = y p ! i;
            d = f_sqrt fl (f_add fl (f_mul fl xv xv) (f_mul fl yv yv));
            isInside = f_le fl d r
        in Returned (s\<lparr>points := p\<lparr>inside := (inside p)[i := isInside]\<rparr>,
                        calls := calls s @ [idx]\<rparr>)
      else OutOfBounds idx s)"

text \<open>One thread processes the point of its own index; the kernel takes no \<open>n\<close>.\<close>

definition PixelFinderKernelOnePointPerThreadSimplified ::
  "'f float_ops \<Rightarrow> Acc \<Rightarrow> 'f state \<Rightarrow> 'f \<Rightarrow> 'f state outcome" where
  "PixelFinderKernelOnePointPerThreadSimplified fl acc s r =
     processPoint fl s r (gridThreadIdx acc)"

text \<open>\<open>if (gridThreadIdx < n) processPoint(acc, points, r, gridThreadIdx);\<close>\<close>

definition PixelFinderKernelOnePointPerThread ::
  "'f float_ops \<Rightarrow> Acc \<Rightarrow> 'f state \<Rightarrow> 'f \<Rightarrow> u32 \<Rightarrow> 'f state outcome" where
  "PixelFinderKernelOnePointPerThread fl acc s r n =
     (if gridThreadIdx acc < n then processPoint fl s r (gridThreadIdx acc)
      else Returned s)"

text \<open>
  \<open>for (uint32_t idx = gridThreadIdx; idx < n; idx += gridThreadExtent)
  processPoint(acc, points, r, idx);\<close>
  The addition wraps around, so the loop need not terminate: one unit of fuel pays for one
  evaluation of the loop condition.
\<close>

fun strided_loop ::
  "nat \<Rightarrow> 'f float_ops \<Rightarrow> 'f \<Rightarrow> u32 \<Rightarrow> u32 \<Rightarrow> u32 \<Rightarrow> 'f state \<Rightarrow> 'f state outcome" where
  "strided_loop 0 fl r n ext idx s = OutOfFuel s"
| "strided_loop (Suc fuel) fl r n ext idx s =
     (if idx < n then
        (case processPoint fl s r idx of
           Returned s' \<Rightarrow> strided_loop fuel fl r n ext (idx + ext) s'
         | OutOfBounds i s' \<Rightarrow> OutOfBounds i s'
         | OutOfFuel s' \<Rightarrow> OutOfFuel s')
      else Returned s)"

definition PixelFinderKernelMultiplePointsPerThread ::
  "nat \<Rightarrow> 'f float_ops \<Rightarrow> Acc \<Rightarrow> 'f state \<Rightarrow> 'f \<Rightarrow> u32 \<Rightarrow> 'f state outcome" where
  "PixelFinderKernelMultiplePointsPerThread fuel fl acc s r n =
     strided_loop fuel fl r n (gridThreadExtent acc) (gridThreadIdx acc) s"

text \<open>
  The inner loop of the blocked kernel,
  \<open>for (uint32_t i = idx; (i < idx + threadElementExtent) && (i < n); i++)
  processPoint(acc, points, r, i);\<close>
  with \<open>bound\<close> the value of \<open>idx + threadElementExtent\<close>, which does not change in
  the loop. The loop terminates: \<open>i < n\<close> leaves room for \<open>i + 1\<close>.
\<close>

function block_loop ::
  "'f float_ops \<Rightarrow> 'f \<Rightarrow> u32 \<Rightarrow> u32 \<Rightarrow> u32 \<Rightarrow> 'f state \<Rightarrow> 'f state outcome" where
  "block_loop fl r n bound i s =
     (if i < bound \<and> i < n then
        (case processPoint fl s r i of
           Returned s' \<Rightarrow> block_loop fl r n bound (i + 1) s'
         | OutOfBounds j s' \<Rightarrow> OutOfBounds j s'
         | OutOfFuel s' \<Rightarrow> OutOfFuel s')
      else Returned s)"
  by pat_completeness auto
termination
proof (relation "measure (\<lambda>(fl, r, n, bound, i, s). unat n - unat i)")
  fix fl :: "'f float_ops" and r :: 'f and n bound i :: u32 and s s' :: "'f state"
  assume "i < bound \<and> i < n"
  then have less: "unat i < unat n" by (simp add: word_less_nat_alt)
  have "unat n < 2 ^ 32" using unsigned_less [of n, where 'a = nat] by simp
  with less have "unat i + unat (1 :: u32) < 2 ^ 32" by simp
  then have "unat (i + 1) = unat i + 1" using unat_add_lem [of i 1] by simp
  with less have "unat n - unat (i + 1) < unat n - unat i" by simp
  then show "((fl, r, n, bound, i + 1, s'), (fl, r, n, bound, i, s))
      \<in> measure (\<lambda>(fl, r, n, bound, i, s). unat n - unat i)" by simp
qed simp

text \<open>
  \<open>for (uint32_t idx = gridThreadIdx * threadElementExtent; idx < n;
  idx += gridThreadExtent * threadElementExtent) { inner loop }\<close>
\<close>

fun blocked_loop ::
  "nat \<Rightarrow> 'f float_ops \<Rightarrow> 'f \<Rightarrow> u32 \<Rightarrow> u32 \<Rightarrow> u32 \<Rightarrow> u32 \<Rightarrow> 'f state \<Rightarrow> 'f state outcome" where
  "blocked_loop 0 fl r n ext k idx s = OutOfFuel s"
| "blocked_loop (Suc fuel) fl r n ext k idx s =
     (if idx < n then
        (case block_loop fl r n (idx + k) idx s of
           Returned s' \<Rightarrow> blocked_loop fuel fl r n ext k (idx + ext * k) s'
         | OutOfBounds i s' \<Rightarrow> OutOfBounds i s'
         | OutOfFuel s' \<Rightarrow> OutOfFuel s')
      else Returned s)"

definition PixelFinderKernelMultiplePointsPerThreadElements ::
  "nat \<Rightarrow> 'f float_ops \<Rightarrow> Acc \<Rightarrow> 'f state \<Rightarrow> 'f \<Rightarrow> u32 \<Rightarrow> 'f state outcome" where
  "PixelFinderKernelMultiplePointsPerThreadElements fuel fl acc s r n =
     blocked_loop fuel fl r n (gridThreadExtent acc) (threadElementExtent acc)
       (gridThreadIdx acc * threadElementExtent acc) s"

section \<open>The kernel of lessons 24 and 25\<close>

text \<open>
  \<open>PixelFinderKernel\<close> of computePi\_lesson24 and computePi\_lesson25: the body of
  \<open>processPoint\<close> written out at the thread's own index.
\<close>

definition PixelFinderKernel ::
  "'f float_ops \<Rightarrow> Acc \<Rightarrow> 'f state \<Rightarrow> 'f \<Rightarrow> 'f state outcome" where
  "PixelFinderKernel fl acc s r =
     (let p = points s; g = gridThreadIdx acc; i = unat g in
      if i < length (x p) \<and> i < length (y p) \<and> i < length (inside p) then
        let xv = x p ! i;
            yv = y p ! i;
            d = f_sqrt fl (f_add fl (f_mul fl xv xv) (f_mul fl yv yv));
            isInside = f_le fl d r
        in Returned (s\<lparr>points := p\<lparr>inside := (inside p)[i := isInside]\<rparr>,
                        calls := calls s @ [g]\<rparr>)
      else OutOfBounds g s)"

section \<open>The host side of main\<close>

text \<open>
  \<open>uint32_t P = 0;
  for (uint32_t i = 0; i < n; ++i) { if (pointsHost.inside[i]) ++P; }\<close>
  over the flag buffer copied back from the device. \<open>None\<close> is a read outside the
  buffer (undefined behaviour in C++).
\<close>

function count_loop :: "bool list \<Rightarrow> u32 \<Rightarrow> u32 \<Rightarrow> u32 \<Rightarrow> u32 option" where
  "count_loop flags n i P =
     (if i < n then
        (if unat i < length flags
         then count_loop flags n (i + 1) (if flags ! unat i then P + 1 else P)
         else None)
      else Some P)"
  by pat_completeness auto
termination
proof (relation "measure (\<lambda>(flags, n, i, P). unat n - unat i)")
  fix flags :: "bool list" and n i P :: u32
  assume "i < n"
  then have less: "unat i < unat n" by (simp add: word_less_nat_alt)
  have "unat n < 2 ^ 32" using unsigned_less [of n, where 'a = nat] by simp
  with less have "unat i + unat (1 :: u32) < 2 ^ 32" by simp
  then have "unat (i + 1) = unat i + 1" using unat_add_lem [of i 1] by simp
  with less have "unat n - unat (i + 1) < unat n - unat i" by simp
  then show "((flags, n, i + 1, if flags ! unat i then P + 1 else P), (flags, n, i, P))
      \<in> measure (\<lambda>(flags, n, i, P). unat n - unat i)" by simp
qed simp

text \<open>\<open>float pi = 4.f * P / n;\<close> Both integers are converted to \<open>float\<close>.\<close>

definition estimate :: "'f float_ops \<Rightarrow> u32 \<Rightarrow> u32 \<Rightarrow> 'f" where
  "estimate fl P n = f_div fl (f_mul fl (f_four fl) (f_of_u32 fl P)) (f_of_u32 fl n)"

text \<open>The two statements in sequence: what main computes from the flags and \<open>n\<close>.\<close>

definition compute_pi :: "'f float_ops \<Rightarrow> bool list \<Rightarrow> u32 \<Rightarrow> 'f option" where
  "compute_pi fl flags n =
     (case count_loop flags n 0 0 of None \<Rightarrow> None | Some P \<Rightarrow> Some (estimate fl P n))"

text \<open>\<open>uint32_t n = 10000;\<close> The number of points is a constant of main.\<close>

definition main_n :: u32 where
  "main_n = 10000"

section \<open>An idealised arithmetic\<close>

text \<open>
  One interpretation of the float operations, used where a concrete run is evaluated:
  exact real arithmetic without rounding or overflow. As IEEE 754 division by zero does
  not trap but yields an infinity or a NaN, the interpretation has one value
  \<open>NonFinite\<close> for these results; it propagates through the operations and every
  comparison with it is false. Statements that hold for every interpretation
  \<open>fl\<close> hold for the binary32 arithmetic of the machine as well; statements about
  \<open>ideal\<close> hold on the machine where every intermediate value is representable.
\<close>

datatype ideal_float = Fin real | NonFinite

fun ideal_mul :: "ideal_float \<Rightarrow> ideal_float \<Rightarrow> ideal_float" where
  "ideal_mul (Fin a) (Fin b) = Fin (a * b)"
| "ideal_mul _ _ = NonFinite"

fun ideal_add :: "ideal_float \<Rightarrow> ideal_float \<Rightarrow> ideal_float" where
  "ideal_add (Fin a) (Fin b) = Fin (a + b)"
| "ideal_add _ _ = NonFinite"

fun ideal_div :: "ideal_float \<Rightarrow> ideal_float \<Rightarrow> ideal_float" where
  "ideal_div (Fin a) (Fin b) = (if b = 0 then NonFinite else Fin (a / b))"
| "ideal_div _ _ = NonFinite"

fun ideal_sqrt :: "ideal_float \<Rightarrow> ideal_float" where
  "ideal_sqrt (Fin a) = (if a < 0 then NonFinite else Fin (sqrt a))"
| "ideal_sqrt NonFinite = NonFinite"

fun ideal_le :: "ideal_float \<Rightarrow> ideal_float \<Rightarrow> bool" where
  "ideal_le (Fin a) (Fin b) = (a \<le> b)"
| "ideal_le _ _ = False"

definition ideal :: "ideal_float float_ops" where
  "ideal = \<lparr>f_mul = ideal_mul, f_add = ideal_add, f_div = ideal_div, f_sqrt = ideal_sqrt,
            f_le = ideal_le, f_of_u32 = (\<lambda>w. Fin (real (unat w))), f_four = Fin 4\<rparr>"

section \<open>Notions used in the statements\<close>

text \<open>The three buffers each hold at least \<open>n\<close> elements, as main allocates them.\<close>

definition buffers_hold :: "u32 \<Rightarrow> 'f state \<Rightarrow> bool" where
  "buffers_hold n s \<longleftrightarrow>
     unat n \<le> length (x (points s)) \<and> unat n \<le> length (y (points s)) \<and>
     unat n \<le> length (inside (points s))"

text \<open>The flag that \<open>processPoint\<close> computes for the point at index \<open>i\<close>.\<close>

definition classify :: "'f float_ops \<Rightarrow> 'f Points \<Rightarrow> 'f \<Rightarrow> nat \<Rightarrow> bool" where
  "classify fl p r i =
     f_le fl (f_sqrt fl (f_add fl (f_mul fl (x p ! i) (x p ! i))
                                   (f_mul fl (y p ! i) (y p ! i)))) r"

text \<open>The state after a call of \<open>processPoint\<close> at an index inside the buffers.\<close>

definition mark :: "'f float_ops \<Rightarrow> 'f \<Rightarrow> 'f state \<Rightarrow> u32 \<Rightarrow> 'f state" where
  "mark fl r s idx =
     s\<lparr>points := (points s)\<lparr>inside :=
          (inside (points s))[unat idx := classify fl (points s) r (unat idx)]\<rparr>,
       calls := calls s @ [idx]\<rparr>"

text \<open>
  The index sequence of the Strided policy in the words of the specification, on
  unbounded naturals: own index \<open>i\<close>, \<open>i + T\<close>, \<open>i + 2 T\<close>, ... while the value
  stays below \<open>N\<close>.
\<close>

definition strided_seq :: "nat \<Rightarrow> nat \<Rightarrow> nat \<Rightarrow> nat list" where
  "strided_seq i T N = map (\<lambda>m. i + m * T) [0..<(N - i + T - 1) div T]"

text \<open>
  The index sequence of the StridedBlocked policy in the words of the specification:
  from the base index \<open>b\<close> in steps of \<open>S\<close>, at each position below \<open>N\<close> the
  \<open>k\<close> contiguous indices from that position that are below \<open>N\<close>.
\<close>

definition blocked_seq :: "nat \<Rightarrow> nat \<Rightarrow> nat \<Rightarrow> nat \<Rightarrow> nat list" where
  "blocked_seq b S k N =
     concat (map (\<lambda>m. [b + m * S..<min (b + m * S + k) N]) [0..<(N - b + S - 1) div S])"

text \<open>
  No addition of the stride \<open>S\<close> to a loop position below \<open>N\<close> exceeds 32 bits, for
  the positions \<open>i\<close>, \<open>i + S\<close>, \<open>i + 2 S\<close>, ... of one thread.
\<close>

definition no_wrap :: "nat \<Rightarrow> nat \<Rightarrow> nat \<Rightarrow> bool" where
  "no_wrap i S N \<longleftrightarrow> (\<forall>m. i + m * S < N \<longrightarrow> i + Suc m * S < 2 ^ 32)"

text \<open>The accelerator argument of thread \<open>i\<close> in a launch of \<open>T\<close> threads with \<open>k\<close> elements each.\<close>

definition thread :: "u32 \<Rightarrow> u32 \<Rightarrow> u32 \<Rightarrow> Acc" where
  "thread T k i = \<lparr>gridThreadIdx = i, gridThreadExtent = T, threadElementExtent = k\<rparr>"

text \<open>
  The indices with which a run from state \<open>s\<close> has invoked \<open>processPoint\<close>: the calls
  added to the log, and the index of the call that left the buffers, if any.
\<close>

definition invoked :: "'f state \<Rightarrow> 'f state outcome \<Rightarrow> u32 list" where
  "invoked s out =
     drop (length (calls s)) (calls (reached out)) @
     (case out of OutOfBounds i s' \<Rightarrow> [i] | _ \<Rightarrow> [])"

text \<open>
  What a run from \<open>s\<close> to \<open>s'\<close> leaves alone: the coordinate buffers, the size of the
  flag buffer, the log so far, and every flag at an index that is not in the calls added.
\<close>

definition frame :: "'f state \<Rightarrow> 'f state \<Rightarrow> bool" where
  "frame s s' \<longleftrightarrow>
     x (points s') = x (points s) \<and> y (points s') = y (points s) \<and>
     length (inside (points s')) = length (inside (points s)) \<and>
     take (length (calls s)) (calls s') = calls s \<and>
     (\<forall>j < length (inside (points s)).
        j \<notin> unat ` set (drop (length (calls s)) (calls s')) \<longrightarrow>
        inside (points s') ! j = inside (points s) ! j)"

text \<open>
  The end-to-end scenario of the specification: four points \<open>(0, 0)\<close>, \<open>(1, 0)\<close>,
  \<open>(2, 0)\<close>, \<open>(0.5, 0.5)\<close>, to be classified with radius 1; no call made yet.
\<close>

definition scenario :: "ideal_float state" where
  "scenario = \<lparr>points = \<lparr>x = [Fin 0, Fin 1, Fin 2, Fin (1 / 2)],
                            y = [Fin 0, Fin 0, Fin 0, Fin (1 / 2)],
                            inside = [False, False, False, False]\<rparr>,
               calls = []\<rparr>"

text \<open>
  The indices that thread \<open>i\<close> of a launch of \<open>T\<close> threads with \<open>k\<close> elements each
  visits from state \<open>s\<close>, under the Strided and under the StridedBlocked kernel.
\<close>

definition strided_visits ::
  "nat \<Rightarrow> 'f float_ops \<Rightarrow> u32 \<Rightarrow> u32 \<Rightarrow> u32 \<Rightarrow> 'f state \<Rightarrow> 'f \<Rightarrow> u32 \<Rightarrow> u32 list" where
  "strided_visits fuel fl T k i s r n =
     invoked s (PixelFinderKernelMultiplePointsPerThread fuel fl (thread T k i) s r n)"

definition blocked_visits ::
  "nat \<Rightarrow> 'f float_ops \<Rightarrow> u32 \<Rightarrow> u32 \<Rightarrow> u32 \<Rightarrow> 'f state \<Rightarrow> 'f \<Rightarrow> u32 \<Rightarrow> u32 list" where
  "blocked_visits fuel fl T k i s r n =
     invoked s (PixelFinderKernelMultiplePointsPerThreadElements fuel fl (thread T k i) s r n)"

text \<open>\<open>N\<close> points at the origin, all flagged outside, no call made yet.\<close>

definition origin_points :: "nat \<Rightarrow> ideal_float state" where
  "origin_points N = \<lparr>points = \<lparr>x = replicate N (Fin 0), y = replicate N (Fin 0),
                                   inside = replicate N False\<rparr>,
                       calls = []\<rparr>"

text \<open>
  The shape of every run, used in the proofs: the state reached is the start state with
  the flags of some indices \<open>new\<close> set one after the other, every index the run invoked
  \<open>processPoint\<close> with satisfies \<open>P\<close>, and a run that leaves the buffers does so at
  such an index, in the state it had reached.
\<close>

definition run_of ::
  "'f float_ops \<Rightarrow> 'f \<Rightarrow> (u32 \<Rightarrow> bool) \<Rightarrow> 'f state \<Rightarrow> 'f state outcome \<Rightarrow> bool" where
  "run_of fl r P s out \<longleftrightarrow>
     (\<exists>new. reached out = foldl (mark fl r) s new \<and> (\<forall>j \<in> set new. P j) \<and>
            (case out of OutOfBounds i s' \<Rightarrow> P i | _ \<Rightarrow> True))"

section \<open>Auxiliary facts\<close>

subsection \<open>Words without wrap-around\<close>

lemma unat_add_nowrap: "unat a + unat b < 2 ^ 32 \<Longrightarrow> unat (a + b) = unat a + unat b"
  for a b :: u32
  using unat_add_lem [of a b] by simp

lemma unat_mult_nowrap: "unat a * unat b < 2 ^ 32 \<Longrightarrow> unat (a * b) = unat a * unat b"
  for a b :: u32
  using unat_mult_lem [of a b] by simp

lemma unat_u32_less: "unat (a :: u32) < 2 ^ 32"
  using unsigned_less [of a, where 'a = nat] by simp

lemma unat_succ: "i < n \<Longrightarrow> unat (i + 1) = unat i + 1" for i n :: u32
proof -
  assume "i < n"
  then have "unat i < unat n" by (simp add: word_less_nat_alt)
  with unat_u32_less [of n] have "unat i + unat (1::u32) < 2 ^ 32" by simp
  then show ?thesis using unat_add_nowrap [of i 1] by simp
qed

subsection \<open>The effect of processPoint\<close>

lemma processPoint_in_bounds:
  "idx < n \<Longrightarrow> buffers_hold n s \<Longrightarrow> processPoint fl s r idx = Returned (mark fl r s idx)"
  by (simp add: processPoint_def buffers_hold_def mark_def classify_def Let_def word_less_nat_alt)

lemma buffers_hold_mark [simp]: "buffers_hold n (mark fl r s idx) = buffers_hold n s"
  by (simp add: buffers_hold_def mark_def)

lemma calls_mark [simp]: "calls (mark fl r s idx) = calls s @ [idx]"
  by (simp add: mark_def)

lemma buffers_hold_foldl_mark [simp]: "buffers_hold n (foldl (mark fl r) s js) = buffers_hold n s"
  by (induction js arbitrary: s) simp_all

lemma calls_foldl_mark [simp]: "calls (foldl (mark fl r) s js) = calls s @ js"
  by (induction js arbitrary: s) simp_all

subsection \<open>The strided loop\<close>

lemma div_add_stride: "0 < T \<Longrightarrow> (b + T) div T = Suc (b div T)" for b T :: nat
  using div_add_self2 [of T b] by simp

lemma ceil_div_step:
  fixes a T :: nat
  assumes "0 < T" "0 < a"
  shows "(a + T - 1) div T = Suc ((a - T + T - 1) div T)"
proof (cases "T \<le> a")
  case True
  then have "a + T - 1 = (a - T + T - 1) + T" using assms by simp
  then show ?thesis using div_add_stride [OF assms(1), of "a - T + T - 1"] by simp
next
  case False
  then have eq: "a + T - 1 = (a - 1) + T" and small: "a - 1 < T" and z: "a - T = 0"
    using assms by simp_all
  have "(a + T - 1) div T = Suc ((a - 1) div T)"
    using div_add_stride [OF assms(1), of "a - 1"] eq by simp
  also have "\<dots> = Suc 0" using small by simp
  finally show ?thesis using z assms(1) by simp
qed

lemma strided_seq_step:
  assumes "0 < T" "i < N"
  shows "strided_seq i T N = i # strided_seq (i + T) T N"
proof -
  have "(N - i + T - 1) div T = Suc ((N - (i + T) + T - 1) div T)"
    using ceil_div_step [of T "N - i"] assms by simp
  then show ?thesis
    by (simp add: strided_seq_def map_upt_Suc del: upt_Suc)
qed

lemma strided_seq_done: "0 < T \<Longrightarrow> N \<le> i \<Longrightarrow> strided_seq i T N = []"
  by (simp add: strided_seq_def)

lemma no_wrap_step: "no_wrap i S N \<Longrightarrow> i < N \<Longrightarrow> i + S < 2 ^ 32 \<and> no_wrap (i + S) S N"
  unfolding no_wrap_def
proof (intro conjI allI impI)
  assume h: "\<forall>m. i + m * S < N \<longrightarrow> i + Suc m * S < 2 ^ 32" and "i < N"
  from h [rule_format, of 0] \<open>i < N\<close> show "i + S < 2 ^ 32" by simp
  fix m assume "i + S + m * S < N"
  then have "i + Suc m * S < N" by (simp add: ac_simps)
  from h [rule_format, OF this] show "i + S + Suc m * S < 2 ^ 32" by (simp add: ac_simps)
qed

lemma strided_loop_run:
  assumes "ext \<noteq> 0" "no_wrap (unat idx) (unat ext) (unat n)" "buffers_hold n s"
    and "(unat n - unat idx + unat ext - 1) div unat ext < fuel"
  shows "strided_loop fuel fl r n ext idx s =
         Returned (foldl (mark fl r) s (map of_nat (strided_seq (unat idx) (unat ext) (unat n))))"
  using assms
proof (induction fuel arbitrary: idx s)
  case 0
  then show ?case by simp
next
  case (Suc fuel)
  have T: "0 < unat ext" using Suc.prems(1) by (simp add: unat_gt_0)
  show ?case
  proof (cases "idx < n")
    case False
    then have "unat n \<le> unat idx" by (simp add: word_less_nat_alt)
    with False T show ?thesis by (simp add: strided_seq_done)
  next
    case True
    then have lt: "unat idx < unat n" by (simp add: word_less_nat_alt)
    from no_wrap_step [OF Suc.prems(2) lt]
    have nw: "unat idx + unat ext < 2 ^ 32" "no_wrap (unat idx + unat ext) (unat ext) (unat n)"
      by simp_all
    have u: "unat (idx + ext) = unat idx + unat ext" using nw(1) by (rule unat_add_nowrap)
    have "(unat n - unat idx + unat ext - 1) div unat ext =
          Suc ((unat n - (unat idx + unat ext) + unat ext - 1) div unat ext)"
      using ceil_div_step [of "unat ext" "unat n - unat idx"] T lt by simp
    with Suc.prems(4) have f: "(unat n - unat (idx + ext) + unat ext - 1) div unat ext < fuel"
      by (simp add: u)
    have ih: "strided_loop fuel fl r n ext (idx + ext) (mark fl r s idx) =
      Returned (foldl (mark fl r) (mark fl r s idx)
        (map of_nat (strided_seq (unat (idx + ext)) (unat ext) (unat n))))"
      using Suc.IH [of "idx + ext" "mark fl r s idx"] Suc.prems(1,3) nw(2) f by (simp add: u)
    show ?thesis
      using True ih
      by (simp add: processPoint_in_bounds [OF True Suc.prems(3)] strided_seq_step [OF T lt] u)
  qed
qed

lemma ceil_less_iff: "0 < T \<Longrightarrow> (m < (a + T - 1) div T) = (m * T < a)" for a T m :: nat
proof -
  assume T: "0 < T"
  have "(m < (a + T - 1) div T) = (Suc m \<le> (a + T - 1) div T)" by auto
  also have "\<dots> = (Suc m * T \<le> a + T - 1)" using T by (simp add: less_eq_div_iff_mult_less_eq)
  also have "\<dots> = (m * T < a)" using T by auto
  finally show ?thesis .
qed

lemma ceil_le: "0 < T \<Longrightarrow> (a + T - 1) div T \<le> a" for a T :: nat
proof (rule ccontr)
  assume T: "0 < T" and "\<not> (a + T - 1) div T \<le> a"
  then have "a < (a + T - 1) div T" by simp
  then have "a * T < a" using ceil_less_iff [OF T] by simp
  then show False using T by simp
qed

lemma no_wrap_static: "N + S \<le> 2 ^ 32 \<Longrightarrow> no_wrap i S N"
  by (auto simp: no_wrap_def)

lemma length_strided_seq: "length (strided_seq i T N) = (N - i + T - 1) div T"
  by (simp add: strided_seq_def)

lemma strided_seq_index: "0 < T \<Longrightarrow> (m < length (strided_seq i T N)) = (i + m * T < N)"
proof -
  assume "0 < T"
  then have "(m < (N - i + T - 1) div T) = (m * T < N - i)" by (rule ceil_less_iff)
  then show ?thesis unfolding length_strided_seq by auto
qed

lemma sorted_strided_seq: "0 < T \<Longrightarrow> sorted_wrt (<) (strided_seq i T N)"
  by (simp add: strided_seq_def sorted_wrt_map sorted_wrt_mono_rel [OF _ sorted_wrt_upt])

subsection \<open>The blocked loops\<close>

declare block_loop.simps [simp del]

lemma block_loop_run:
  "buffers_hold n s \<Longrightarrow>
   block_loop fl r n bound i s =
     Returned (foldl (mark fl r) s (map of_nat [unat i..<min (unat bound) (unat n)]))"
proof (induction fl r n bound i s rule: block_loop.induct)
  case (1 fl r n bound i s)
  show ?case
  proof (cases "i < bound \<and> i < n")
    case False
    then have "min (unat bound) (unat n) \<le> unat i" by (auto simp: word_less_nat_alt)
    moreover have "block_loop fl r n bound i s = Returned s"
      by (subst block_loop.simps) (simp only: False if_False)
    ultimately show ?thesis by simp
  next
    case True
    then have lt: "unat i < min (unat bound) (unat n)" by (simp add: word_less_nat_alt)
    from True have "i < n" by simp
    note pp = processPoint_in_bounds [OF this "1.prems", of fl r]
    have u: "unat (i + 1) = unat i + 1" using True unat_succ by blast
    have ih: "block_loop fl r n bound (i + 1) (mark fl r s i) =
      Returned (foldl (mark fl r) (mark fl r s i)
        (map of_nat [unat (i + 1)..<min (unat bound) (unat n)]))"
      using "1.IH" [OF True pp] "1.prems" by simp
    have "[unat i..<min (unat bound) (unat n)] = unat i # [unat i + 1..<min (unat bound) (unat n)]"
      using lt by (simp add: upt_conv_Cons)
    with True ih pp show ?thesis by (subst block_loop.simps) (simp add: u)
  qed
qed

lemma blocked_seq_step:
  assumes "0 < S" "b < N"
  shows "blocked_seq b S k N = [b..<min (b + k) N] @ blocked_seq (b + S) S k N"
proof -
  have "(N - b + S - 1) div S = Suc ((N - (b + S) + S - 1) div S)"
    using ceil_div_step [of S "N - b"] assms by simp
  then show ?thesis
    by (simp add: blocked_seq_def map_upt_Suc add.assoc del: upt_Suc)
qed

lemma blocked_seq_done: "N \<le> b \<Longrightarrow> blocked_seq b S k N = []"
  by (cases "S = 0") (simp_all add: blocked_seq_def)

lemma foldl_mark_append:
  "foldl (mark fl r) s (js @ ks) = foldl (mark fl r) (foldl (mark fl r) s js) ks"
  by simp

lemma blocked_loop_run:
  assumes "no_wrap (unat idx) (unat (ext * k)) (unat n)"
    and "0 < unat n \<Longrightarrow> 0 < unat (ext * k) \<and> unat k \<le> unat (ext * k)"
    and "buffers_hold n s"
    and "(unat n - unat idx + unat (ext * k) - 1) div unat (ext * k) < fuel"
  shows "blocked_loop fuel fl r n ext k idx s =
         Returned (foldl (mark fl r) s
           (map of_nat (blocked_seq (unat idx) (unat (ext * k)) (unat k) (unat n))))"
  using assms
proof (induction fuel arbitrary: idx s)
  case 0
  then show ?case by simp
next
  case (Suc fuel)
  show ?case
  proof (cases "idx < n")
    case False
    then have "unat n \<le> unat idx" by (simp add: word_less_nat_alt)
    with False show ?thesis by (simp add: blocked_seq_done)
  next
    case True
    then have lt: "unat idx < unat n" by (simp add: word_less_nat_alt)
    then have S: "0 < unat (ext * k)" and kS: "unat k \<le> unat (ext * k)"
      using Suc.prems(2) by simp_all
    from no_wrap_step [OF Suc.prems(1) lt]
    have nw: "unat idx + unat (ext * k) < 2 ^ 32"
      "no_wrap (unat idx + unat (ext * k)) (unat (ext * k)) (unat n)"
      by simp_all
    have u: "unat (idx + ext * k) = unat idx + unat (ext * k)"
      using nw(1) by (rule unat_add_nowrap)
    have "unat idx + unat k < 2 ^ 32" using nw(1) kS by simp
    then have b: "unat (idx + k) = unat idx + unat k" by (rule unat_add_nowrap)
    have "(unat n - unat idx + unat (ext * k) - 1) div unat (ext * k) =
          Suc ((unat n - (unat idx + unat (ext * k)) + unat (ext * k) - 1) div unat (ext * k))"
      using ceil_div_step [of "unat (ext * k)" "unat n - unat idx"] S lt by simp
    with Suc.prems(4)
    have f: "(unat n - unat (idx + ext * k) + unat (ext * k) - 1) div unat (ext * k) < fuel"
      by (simp add: u)
    let ?s' = "foldl (mark fl r) s (map of_nat [unat idx..<min (unat idx + unat k) (unat n)])"
    have inner: "block_loop fl r n (idx + k) idx s = Returned ?s'"
      using block_loop_run [OF Suc.prems(3)] by (simp add: b)
    have ih: "blocked_loop fuel fl r n ext k (idx + ext * k) ?s' =
      Returned (foldl (mark fl r) ?s'
        (map of_nat (blocked_seq (unat (idx + ext * k)) (unat (ext * k)) (unat k) (unat n))))"
      using Suc.IH [of "idx + ext * k" ?s'] Suc.prems(2,3) nw(2) f by (simp add: u)
    show ?thesis
      using True ih inner
      by (simp add: blocked_seq_step [OF S lt] u)
  qed
qed

subsection \<open>Which thread owns an index\<close>

lemma set_strided_seq:
  assumes "0 < T"
  shows "set (strided_seq i T N) = {j. j < N \<and> (\<exists>m. j = i + m * T)}"
proof -
  define M where "M = (N - i + T - 1) div T"
  have M: "(m < M) = (i + m * T < N)" for m
    unfolding M_def using ceil_less_iff [OF assms, of m "N - i"] by auto
  have seq: "strided_seq i T N = map (\<lambda>m. i + m * T) [0..<M]"
    by (simp only: strided_seq_def M_def)
  show ?thesis
  proof (intro set_eqI iffI)
    fix j
    assume "j \<in> set (strided_seq i T N)"
    then obtain m where "m < M" "j = i + m * T" unfolding seq by auto
    then show "j \<in> {j. j < N \<and> (\<exists>m. j = i + m * T)}" using M by blast
  next
    fix j
    assume "j \<in> {j. j < N \<and> (\<exists>m. j = i + m * T)}"
    then obtain m where m: "j < N" "j = i + m * T" by blast
    then have "m < M" by (simp only: M)
    then show "j \<in> set (strided_seq i T N)" unfolding seq using m(2) by auto
  qed
qed

lemma strided_owner:
  assumes "0 < T" "i < T"
  shows "j \<in> set (strided_seq i T N) \<longleftrightarrow> j < N \<and> j mod T = i"
proof -
  have "(\<exists>m. j = i + m * T) \<longleftrightarrow> j mod T = i"
  proof
    assume "\<exists>m. j = i + m * T"
    then show "j mod T = i" using assms by auto
  next
    assume "j mod T = i"
    then have "j = i + (j div T) * T" by (metis add.commute div_mult_mod_eq)
    then show "\<exists>m. j = i + m * T" ..
  qed
  then show ?thesis by (simp add: set_strided_seq [OF assms(1)])
qed

lemma set_blocked_seq:
  assumes "0 < S"
  shows "set (blocked_seq b S k N) = {j. j < N \<and> (\<exists>m. b + m * S \<le> j \<and> j < b + m * S + k)}"
proof -
  define M where "M = (N - b + S - 1) div S"
  have M: "(m < M) = (b + m * S < N)" for m
    unfolding M_def using ceil_less_iff [OF assms, of m "N - b"] by auto
  have seq: "blocked_seq b S k N = concat (map (\<lambda>m. [b + m * S..<min (b + m * S + k) N]) [0..<M])"
    by (simp only: blocked_seq_def M_def)
  show ?thesis
  proof (intro set_eqI iffI)
    fix j
    assume "j \<in> set (blocked_seq b S k N)"
    then obtain m where "m < M" "j \<in> set [b + m * S..<min (b + m * S + k) N]"
      unfolding seq by auto
    then have "j < N \<and> b + m * S \<le> j \<and> j < b + m * S + k" by simp
    then show "j \<in> {j. j < N \<and> (\<exists>m. b + m * S \<le> j \<and> j < b + m * S + k)}" by blast
  next
    fix j
    assume "j \<in> {j. j < N \<and> (\<exists>m. b + m * S \<le> j \<and> j < b + m * S + k)}"
    then obtain m where m: "j < N" "b + m * S \<le> j" "j < b + m * S + k" by blast
    then have "b + m * S < N" by simp
    then have "m < M" by (simp only: M)
    moreover have "j \<in> set [b + m * S..<min (b + m * S + k) N]" using m by simp
    ultimately show "j \<in> set (blocked_seq b S k N)" unfolding seq by auto
  qed
qed

lemma blocked_owner:
  assumes "0 < T" "0 < k" "i < T"
  shows "j \<in> set (blocked_seq (i * k) (T * k) k N) \<longleftrightarrow> j < N \<and> (j div k) mod T = i"
proof -
  have S: "0 < T * k" using assms by simp
  have pos: "i * k + m * (T * k) = k * (i + m * T)" for m by (simp add: algebra_simps)
  have "(\<exists>m. i * k + m * (T * k) \<le> j \<and> j < i * k + m * (T * k) + k) \<longleftrightarrow> (j div k) mod T = i"
  proof
    assume "\<exists>m. i * k + m * (T * k) \<le> j \<and> j < i * k + m * (T * k) + k"
    then obtain m where "i * k + m * (T * k) \<le> j" "j < i * k + m * (T * k) + k" by blast
    then have "k * (i + m * T) \<le> j" "j < k * Suc (i + m * T)" by (simp_all only: pos mult_Suc_right)
    then have "j div k = i + m * T" by (rule div_nat_eqI)
    then show "(j div k) mod T = i" using assms(3) by simp
  next
    assume h: "(j div k) mod T = i"
    define m where "m = (j div k) div T"
    have "j div k = (j div k) mod T + ((j div k) div T) * T" by simp
    then have q: "j div k = i + m * T" by (simp only: h m_def)
    have "j = k * (j div k) + j mod k" by simp
    moreover have "j mod k < k" using assms(2) by simp
    ultimately have "k * (j div k) \<le> j" "j < k * (j div k) + k" by linarith+
    then have "i * k + m * (T * k) \<le> j \<and> j < i * k + m * (T * k) + k"
      by (simp only: pos q)
    then show "\<exists>m. i * k + m * (T * k) \<le> j \<and> j < i * k + m * (T * k) + k" ..
  qed
  then show ?thesis by (simp only: set_blocked_seq [OF S] mem_Collect_eq)
qed

lemma blocked_seq_bounds:
  assumes "0 < S" "j \<in> set (blocked_seq b S k N)"
  shows "b \<le> j \<and> j < N"
proof -
  from assms(2) obtain m where "j < N" "b + m * S \<le> j"
    unfolding set_blocked_seq [OF assms(1)] by blast
  then show ?thesis by simp
qed

lemma sorted_blocked_seq:
  assumes "0 < S" "k \<le> S"
  shows "sorted_wrt (<) (blocked_seq b S k N)"
proof (induction "N - b" arbitrary: b rule: less_induct)
  case less
  show ?case
  proof (cases "b < N")
    case False
    then show ?thesis by (simp add: blocked_seq_done)
  next
    case True
    have ih: "sorted_wrt (<) (blocked_seq (b + S) S k N)"
      using less [of "b + S"] True assms(1) by simp
    have "u < v" if "u \<in> set [b..<min (b + k) N]" "v \<in> set (blocked_seq (b + S) S k N)" for u v
    proof -
      from that(1) have "u < b + k" by simp
      moreover from blocked_seq_bounds [OF assms(1) that(2)] have "b + S \<le> v" by simp
      ultimately show ?thesis using assms(2) by simp
    qed
    then have "\<forall>u \<in> set [b..<min (b + k) N]. \<forall>v \<in> set (blocked_seq (b + S) S k N). u < v"
      by blast
    moreover have "sorted_wrt (<) [b..<min (b + k) N]" by (rule sorted_wrt_upt)
    ultimately have "sorted_wrt (<) ([b..<min (b + k) N] @ blocked_seq (b + S) S k N)"
      using ih by (simp only: sorted_wrt_append simp_thms)
    then show ?thesis by (simp only: blocked_seq_step [OF assms(1) True])
  qed
qed

subsection \<open>Kernel runs without wrap-around\<close>

lemma unat_of_nat_u32: "a < 2 ^ 32 \<Longrightarrow> unat (of_nat a :: u32) = a"
  by (simp add: unat_of_nat)

lemma mem_map_of_nat:
  assumes "\<forall>a \<in> set l. a < 2 ^ 32"
  shows "(w \<in> set (map of_nat l :: u32 list)) = (unat w \<in> set l)"
proof
  assume "w \<in> set (map of_nat l :: u32 list)"
  then obtain a where a: "a \<in> set l" "w = of_nat a" by auto
  with assms have "unat w = a" by (simp add: unat_of_nat_u32)
  with a show "unat w \<in> set l" by simp
next
  assume "unat w \<in> set l"
  then have "(of_nat (unat w) :: u32) \<in> of_nat ` set l" by (rule imageI)
  then show "w \<in> set (map of_nat l :: u32 list)" by simp
qed

lemma distinct_map_of_nat:
  assumes "distinct l" "\<forall>a \<in> set l. a < 2 ^ 32"
  shows "distinct (map of_nat l :: u32 list)"
proof -
  have "inj_on (of_nat :: nat \<Rightarrow> u32) (set l)"
  proof (rule inj_onI)
    fix a b assume "a \<in> set l" "b \<in> set l" "(of_nat a :: u32) = of_nat b"
    then have "unat (of_nat a :: u32) = unat (of_nat b :: u32)" by simp
    with \<open>a \<in> set l\<close> \<open>b \<in> set l\<close> assms(2) show "a = b" by (simp add: unat_of_nat_u32)
  qed
  with assms(1) show ?thesis by (simp add: distinct_map)
qed

lemma invoked_Returned:
  "calls s' = calls s @ new \<Longrightarrow> invoked s (Returned s') = new"
  by (simp add: invoked_def)

lemma strided_seq_below: "0 < T \<Longrightarrow> a \<in> set (strided_seq i T N) \<Longrightarrow> a < N"
  by (simp add: set_strided_seq)

lemma strided_kernel_static:
  assumes "T \<noteq> 0" "unat n + unat T \<le> 2 ^ 32" "buffers_hold n s" "unat n < fuel"
  shows "PixelFinderKernelMultiplePointsPerThread fuel fl (thread T k i) s r n =
         Returned (foldl (mark fl r) s (map of_nat (strided_seq (unat i) (unat T) (unat n))))"
proof -
  have T: "0 < unat T" using assms(1) by (simp add: unat_gt_0)
  have "(unat n - unat i + unat T - 1) div unat T \<le> unat n - unat i"
    using ceil_le [OF T] by simp
  then have f: "(unat n - unat i + unat T - 1) div unat T < fuel" using assms(4) by simp
  have nw: "no_wrap (unat i) (unat T) (unat n)" using assms(2) by (rule no_wrap_static)
  show ?thesis
    unfolding PixelFinderKernelMultiplePointsPerThread_def thread_def
    using strided_loop_run [OF assms(1) nw assms(3) f] by simp
qed

lemma blocked_kernel_static:
  assumes "T \<noteq> 0" "k \<noteq> 0" "i < T" "unat n + unat T * unat k \<le> 2 ^ 32"
    "buffers_hold n s" "unat n < fuel"
  shows "PixelFinderKernelMultiplePointsPerThreadElements fuel fl (thread T k i) s r n =
         Returned (foldl (mark fl r) s
           (map of_nat (blocked_seq (unat i * unat k) (unat T * unat k) (unat k) (unat n))))"
proof (cases "unat n = 0")
  case True
  then have "n = 0" by (simp add: unat_eq_0)
  moreover obtain f where "fuel = Suc f" using assms(6) by (cases fuel) simp_all
  ultimately show ?thesis
    by (simp add: PixelFinderKernelMultiplePointsPerThreadElements_def blocked_seq_done)
next
  case False
  have T: "0 < unat T" and k: "0 < unat k" using assms(1,2) by (simp_all add: unat_gt_0)
  have "unat T * unat k < 2 ^ 32" using assms(4) False by simp
  then have S: "unat (T * k) = unat T * unat k" by (rule unat_mult_nowrap)
  have "unat i < unat T" using assms(3) by (simp add: word_less_nat_alt)
  then have "unat i * unat k < unat T * unat k" using k by simp
  then have "unat i * unat k < 2 ^ 32" using \<open>unat T * unat k < 2 ^ 32\<close> by (rule less_trans)
  then have b: "unat (i * k) = unat i * unat k" by (rule unat_mult_nowrap)
  have Spos: "0 < unat T * unat k" using T k by simp
  have kS: "unat k \<le> unat T * unat k" using T by simp
  have nw: "no_wrap (unat (i * k)) (unat (T * k)) (unat n)"
    using assms(4) by (simp only: S) (rule no_wrap_static)
  have "(unat n - unat (i * k) + unat (T * k) - 1) div unat (T * k) \<le> unat n - unat (i * k)"
    using ceil_le [OF Spos] by (simp only: S)
  then have f: "(unat n - unat (i * k) + unat (T * k) - 1) div unat (T * k) < fuel"
    using assms(6) by simp
  have c: "0 < unat n \<Longrightarrow> 0 < unat (T * k) \<and> unat k \<le> unat (T * k)"
    using Spos kS by (simp only: S)
  show ?thesis
    unfolding PixelFinderKernelMultiplePointsPerThreadElements_def thread_def
    using blocked_loop_run [OF nw c assms(5) f, of fl r] by (simp add: S b)
qed

lemma strided_visits_static:
  assumes "T \<noteq> 0" "unat n + unat T \<le> 2 ^ 32" "buffers_hold n s" "unat n < fuel"
  shows "strided_visits fuel fl T k i s r n = map of_nat (strided_seq (unat i) (unat T) (unat n))"
  unfolding strided_visits_def strided_kernel_static [OF assms]
  by (rule invoked_Returned) simp

lemma blocked_visits_static:
  assumes "T \<noteq> 0" "k \<noteq> 0" "i < T" "unat n + unat T * unat k \<le> 2 ^ 32"
    "buffers_hold n s" "unat n < fuel"
  shows "blocked_visits fuel fl T k i s r n =
         map of_nat (blocked_seq (unat i * unat k) (unat T * unat k) (unat k) (unat n))"
  unfolding blocked_visits_def blocked_kernel_static [OF assms]
  by (rule invoked_Returned) simp

lemma unique_owner:
  fixes T :: u32
  assumes "T \<noteq> 0"
  shows "\<exists>!i. i < T \<and> unat i = q mod unat T"
proof (rule ex1I)
  have T: "0 < unat T" using assms by (simp add: unat_gt_0)
  then have lt: "q mod unat T < unat T" by simp
  also have "\<dots> < 2 ^ 32" by (rule unat_u32_less)
  finally have u: "unat (of_nat (q mod unat T) :: u32) = q mod unat T" by (rule unat_of_nat_u32)
  with lt show "(of_nat (q mod unat T) :: u32) < T \<and> unat (of_nat (q mod unat T) :: u32) = q mod unat T"
    by (simp add: word_less_nat_alt)
  fix i :: u32
  assume "i < T \<and> unat i = q mod unat T"
  then have "unat i = unat (of_nat (q mod unat T) :: u32)" using u by simp
  then show "i = of_nat (q mod unat T)" by (simp only: word_unat_eq_iff)
qed

lemma strided_seq_bound32:
  assumes "0 < T" "N \<le> 2 ^ 32" shows "\<forall>a \<in> set (strided_seq i T N). a < 2 ^ 32"
  using strided_seq_below [OF assms(1)] assms(2) by fastforce

lemma blocked_seq_bound32:
  assumes "0 < S" "N \<le> 2 ^ 32" shows "\<forall>a \<in> set (blocked_seq b S k N). a < 2 ^ 32"
  using blocked_seq_bounds [OF assms(1)] assms(2) by fastforce

lemma strided_partition:
  assumes T: "T \<noteq> 0" and nT: "unat n + unat T \<le> 2 ^ 32"
    and buf: "buffers_hold n s" and fuel: "unat n < fuel"
  shows "(\<forall>j. j < n \<longrightarrow> (\<exists>!i. i < T \<and> j \<in> set (strided_visits fuel fl T k i s r n))) \<and>
         (\<forall>i. i < T \<longrightarrow>
            distinct (strided_visits fuel fl T k i s r n) \<and>
            (\<forall>j \<in> set (strided_visits fuel fl T k i s r n). j < n) \<and>
            returns (PixelFinderKernelMultiplePointsPerThread fuel fl (thread T k i) s r n))"
proof -
  have Tp: "0 < unat T" using T by (simp add: unat_gt_0)
  have N: "unat n \<le> 2 ^ 32" using unat_u32_less [of n] by simp
  note sv = strided_visits_static [OF T nT buf fuel, of fl k _ r]
  have smem: "(j \<in> set (strided_visits fuel fl T k i s r n)) = (j < n \<and> unat j mod unat T = unat i)"
    if "i < T" for i j
  proof -
    from that have "unat i < unat T" by (simp add: word_less_nat_alt)
    from strided_owner [OF Tp this, of "unat j" "unat n"]
    show ?thesis
      by (simp only: sv mem_map_of_nat [OF strided_seq_bound32 [OF Tp N]] word_less_nat_alt)
  qed
  have part1: "\<exists>!i. i < T \<and> j \<in> set (strided_visits fuel fl T k i s r n)" if "j < n" for j
  proof -
    have "(\<lambda>i. i < T \<and> j \<in> set (strided_visits fuel fl T k i s r n)) =
          (\<lambda>i. i < T \<and> unat i = unat j mod unat T)"
      using that smem by (intro ext) auto
    then show ?thesis using unique_owner [OF T, of "unat j"] by simp
  qed
  have part3: "distinct (strided_visits fuel fl T k i s r n) \<and>
            (\<forall>j \<in> set (strided_visits fuel fl T k i s r n). j < n) \<and>
            returns (PixelFinderKernelMultiplePointsPerThread fuel fl (thread T k i) s r n)"
    if "i < T" for i
  proof (intro conjI)
    have "distinct (strided_seq (unat i) (unat T) (unat n))"
      using sorted_strided_seq [OF Tp] by (simp add: strict_sorted_iff)
    then show "distinct (strided_visits fuel fl T k i s r n)"
      unfolding sv by (rule distinct_map_of_nat) (rule strided_seq_bound32 [OF Tp N])
    show "\<forall>j \<in> set (strided_visits fuel fl T k i s r n). j < n"
      using smem [OF that] by blast
    show "returns (PixelFinderKernelMultiplePointsPerThread fuel fl (thread T k i) s r n)"
      by (simp only: strided_kernel_static [OF T nT buf fuel] returns.simps)
  qed
  from part1 part3 show ?thesis by blast
qed

lemma blocked_partition:
  assumes T: "T \<noteq> 0" and k: "k \<noteq> 0"
    and nw: "unat n + unat T * unat k \<le> 2 ^ 32"
    and buf: "buffers_hold n s" and fuel: "unat n < fuel"
  shows "(\<forall>j. j < n \<longrightarrow> (\<exists>!i. i < T \<and> j \<in> set (blocked_visits fuel fl T k i s r n))) \<and>
         (\<forall>i. i < T \<longrightarrow>
            distinct (blocked_visits fuel fl T k i s r n) \<and>
            (\<forall>j \<in> set (blocked_visits fuel fl T k i s r n). j < n) \<and>
            returns (PixelFinderKernelMultiplePointsPerThreadElements fuel fl (thread T k i) s r n))"
proof -
  have Tp: "0 < unat T" and kp: "0 < unat k" using T k by (simp_all add: unat_gt_0)
  have Sp: "0 < unat T * unat k" using Tp kp by simp
  have kS: "unat k \<le> unat T * unat k" using Tp by simp
  have N: "unat n \<le> 2 ^ 32" using unat_u32_less [of n] by simp
  note bv = blocked_visits_static [OF T k _ nw buf fuel, of _ fl r]
  have bmem: "(j \<in> set (blocked_visits fuel fl T k i s r n)) =
              (j < n \<and> (unat j div unat k) mod unat T = unat i)"
    if "i < T" for i j
  proof -
    from that have "unat i < unat T" by (simp add: word_less_nat_alt)
    from blocked_owner [OF Tp kp this, of "unat j" "unat n"]
    show ?thesis
      by (simp only: bv [OF that] mem_map_of_nat [OF blocked_seq_bound32 [OF Sp N]]
          word_less_nat_alt)
  qed
  have part2: "\<exists>!i. i < T \<and> j \<in> set (blocked_visits fuel fl T k i s r n)" if "j < n" for j
  proof -
    have "(\<lambda>i. i < T \<and> j \<in> set (blocked_visits fuel fl T k i s r n)) =
          (\<lambda>i. i < T \<and> unat i = (unat j div unat k) mod unat T)"
      using that bmem by (intro ext) auto
    then show ?thesis using unique_owner [OF T, of "unat j div unat k"] by simp
  qed
  have part3: "distinct (blocked_visits fuel fl T k i s r n) \<and>
            (\<forall>j \<in> set (blocked_visits fuel fl T k i s r n). j < n) \<and>
            returns (PixelFinderKernelMultiplePointsPerThreadElements fuel fl (thread T k i) s r n)"
    if "i < T" for i
  proof (intro conjI)
    have "distinct (blocked_seq (unat i * unat k) (unat T * unat k) (unat k) (unat n))"
      using sorted_blocked_seq [OF Sp kS] by (simp add: strict_sorted_iff)
    then show "distinct (blocked_visits fuel fl T k i s r n)"
      unfolding bv [OF that] by (rule distinct_map_of_nat) (rule blocked_seq_bound32 [OF Sp N])
    show "\<forall>j \<in> set (blocked_visits fuel fl T k i s r n). j < n"
      using bmem [OF that] by blast
    show "returns (PixelFinderKernelMultiplePointsPerThreadElements fuel fl (thread T k i) s r n)"
      by (simp only: blocked_kernel_static [OF T k that nw buf fuel] returns.simps)
  qed
  from part2 part3 show ?thesis by blast
qed

subsection \<open>One element per thread\<close>

lemma processPoint_not_OutOfFuel: "processPoint fl s r idx \<noteq> OutOfFuel s'"
  by (simp add: processPoint_def Let_def)

lemma block_loop_single:
  assumes "idx < n"
  shows "block_loop fl r n (idx + 1) idx s = processPoint fl s r idx"
proof -
  have u: "unat (idx + 1) = unat idx + 1" using assms by (rule unat_succ)
  then have lt: "idx < idx + 1" by (simp add: word_less_nat_alt)
  have stop: "block_loop fl r n (idx + 1) (idx + 1) s' = Returned s'" for s'
    by (subst block_loop.simps) simp
  show ?thesis
    by (subst block_loop.simps)
      (simp add: lt assms stop processPoint_not_OutOfFuel split: outcome.split)
qed

lemma blocked_loop_single:
  "blocked_loop fuel fl r n ext 1 idx s = strided_loop fuel fl r n ext idx s"
proof (induction fuel arbitrary: idx s)
  case 0
  show ?case by simp
next
  case (Suc fuel)
  show ?case
  proof (cases "idx < n")
    case True
    then show ?thesis by (simp add: block_loop_single Suc.IH split: outcome.split)
  next
    case False
    then show ?thesis by simp
  qed
qed

lemma full_runs:
  fixes b S k N m :: nat
  assumes "k \<le> S" "b + Suc m * S < N"
  shows "b + m * S + k \<le> N"
proof -
  have "b + m * S + k \<le> b + m * S + S" using assms(1) by simp
  also have "\<dots> = b + Suc m * S" by simp
  finally show ?thesis using assms(2) by simp
qed

subsection \<open>As many threads as points\<close>

lemma buffers_hold_origin_points: "unat n \<le> N \<Longrightarrow> buffers_hold n (origin_points N)"
  by (simp add: buffers_hold_def origin_points_def)

lemma calls_origin_points [simp]: "calls (origin_points N) = []"
  by (simp add: origin_points_def)

lemma invoked_mark: "invoked s (Returned (mark fl r s idx)) = [idx]"
  by (simp add: invoked_def)

lemma strided_loop_own_index:
  assumes "i < n" "unat n \<le> 2 ^ 31" "buffers_hold n s" "2 \<le> fuel"
  shows "strided_loop fuel fl r n n i s = Returned (mark fl r s i)"
proof -
  obtain f where fuel: "fuel = Suc (Suc f)"
    using assms(4) by (metis Suc_le_D numeral_2_eq_2 Suc_le_mono)
  have lt: "unat i < unat n" using assms(1) by (simp add: word_less_nat_alt)
  with assms(2) have "unat i + unat n < 2 ^ 32" by simp
  then have "unat (i + n) = unat i + unat n" by (rule unat_add_nowrap)
  then have stop: "\<not> i + n < n" by (simp add: word_less_nat_alt)
  show ?thesis
    unfolding fuel
    by (simp add: assms(1) stop processPoint_in_bounds [OF assms(1,3)])
qed

lemma own_index_kernels:
  assumes "i < n" and "unat n \<le> 2 ^ 31" and "buffers_hold n s" and "2 \<le> fuel"
  shows "PixelFinderKernelOnePointPerThreadSimplified fl (thread n k i) s r =
           Returned (mark fl r s i) \<and>
         PixelFinderKernelOnePointPerThread fl (thread n k i) s r n =
           Returned (mark fl r s i) \<and>
         PixelFinderKernelMultiplePointsPerThread fuel fl (thread n k i) s r n =
           Returned (mark fl r s i) \<and>
         strided_visits fuel fl n k i s r n = [i]"
  using assms(1)
  by (simp add: PixelFinderKernelOnePointPerThreadSimplified_def strided_visits_def
      PixelFinderKernelOnePointPerThread_def PixelFinderKernelMultiplePointsPerThread_def
      thread_def processPoint_in_bounds [OF assms(1,3)] strided_loop_own_index [OF assms]
      invoked_mark)

subsection \<open>The shape of every run\<close>

lemma processPoint_outcome:
  "processPoint fl s r idx = Returned (mark fl r s idx) \<or>
   processPoint fl s r idx = OutOfBounds idx s"
  by (simp add: processPoint_def mark_def classify_def Let_def)

lemma run_of_Returned [simp]: "run_of fl r P s (Returned s)"
  unfolding run_of_def by (rule exI [of _ "[]"]) simp

lemma run_of_OutOfFuel [simp]: "run_of fl r P s (OutOfFuel s)"
  unfolding run_of_def by (rule exI [of _ "[]"]) simp

lemma run_of_OutOfBounds: "P i \<Longrightarrow> run_of fl r P s (OutOfBounds i s)"
  unfolding run_of_def by (rule exI [of _ "[]"]) simp

lemma run_of_step:
  assumes "P idx" "run_of fl r P (mark fl r s idx) out"
  shows "run_of fl r P s out"
proof -
  from assms(2) obtain new where new: "reached out = foldl (mark fl r) (mark fl r s idx) new"
    "\<forall>j \<in> set new. P j" "case out of OutOfBounds i s' \<Rightarrow> P i | _ \<Rightarrow> True"
    unfolding run_of_def by blast
  show ?thesis
    unfolding run_of_def
    by (rule exI [of _ "idx # new"]) (simp add: new assms(1))
qed

lemma run_of_trans:
  assumes "run_of fl r P s (Returned s')" "run_of fl r P s' out"
  shows "run_of fl r P s out"
proof -
  from assms(1) obtain n1 where n1: "s' = foldl (mark fl r) s n1" "\<forall>j \<in> set n1. P j"
    unfolding run_of_def by auto
  from assms(2) obtain n2 where n2: "reached out = foldl (mark fl r) s' n2"
    "\<forall>j \<in> set n2. P j" "case out of OutOfBounds i s' \<Rightarrow> P i | _ \<Rightarrow> True"
    unfolding run_of_def by blast
  show ?thesis
    unfolding run_of_def
    by (rule exI [of _ "n1 @ n2"]) (simp add: n1 n2 ball_Un)
qed

lemma run_of_processPoint: "P idx \<Longrightarrow> run_of fl r P s (processPoint fl s r idx)"
  using processPoint_outcome [of fl s r idx]
  by (auto intro: run_of_OutOfBounds run_of_step [where idx = idx])

lemma strided_loop_run_of:
  "run_of fl r (\<lambda>j. j < n) s (strided_loop fuel fl r n ext idx s)"
proof (induction fuel arbitrary: idx s)
  case 0
  show ?case by simp
next
  case (Suc fuel)
  show ?case
  proof (cases "idx < n")
    case False
    then show ?thesis by simp
  next
    case True
    from processPoint_outcome [of fl s r idx] show ?thesis
    proof
      assume "processPoint fl s r idx = Returned (mark fl r s idx)"
      then show ?thesis
        using True Suc.IH [of "mark fl r s idx" "idx + ext"]
        by (simp add: run_of_step [where idx = idx])
    next
      assume "processPoint fl s r idx = OutOfBounds idx s"
      then show ?thesis using True by (simp add: run_of_OutOfBounds)
    qed
  qed
qed

lemma block_loop_run_of:
  "run_of fl r (\<lambda>j. j < n) s (block_loop fl r n bound i s)"
proof (induction fl r n bound i s rule: block_loop.induct)
  case (1 fl r n bound i s)
  show ?case
  proof (cases "i < bound \<and> i < n")
    case False
    have "block_loop fl r n bound i s = Returned s"
      by (subst block_loop.simps) (simp only: False if_False)
    then show ?thesis by simp
  next
    case True
    from processPoint_outcome [of fl s r i] show ?thesis
    proof
      assume pp: "processPoint fl s r i = Returned (mark fl r s i)"
      have "block_loop fl r n bound i s = block_loop fl r n bound (i + 1) (mark fl r s i)"
        by (subst block_loop.simps) (simp add: True pp)
      moreover have "run_of fl r (\<lambda>j. j < n) (mark fl r s i)
          (block_loop fl r n bound (i + 1) (mark fl r s i))"
        by (rule "1.IH" [OF True pp])
      ultimately show ?thesis using True by (simp add: run_of_step [where idx = i])
    next
      assume pp: "processPoint fl s r i = OutOfBounds i s"
      have "block_loop fl r n bound i s = OutOfBounds i s"
        by (subst block_loop.simps) (simp add: True pp)
      then show ?thesis using True by (simp add: run_of_OutOfBounds)
    qed
  qed
qed

lemma block_loop_not_OutOfFuel: "block_loop fl r n bound i s \<noteq> OutOfFuel s'"
proof (induction fl r n bound i s rule: block_loop.induct)
  case (1 fl r n bound i s)
  show ?case
  proof (cases "i < bound \<and> i < n")
    case False
    have "block_loop fl r n bound i s = Returned s"
      by (subst block_loop.simps) (simp only: False if_False)
    then show ?thesis by simp
  next
    case True
    from processPoint_outcome [of fl s r i] show ?thesis
    proof
      assume pp: "processPoint fl s r i = Returned (mark fl r s i)"
      have "block_loop fl r n bound i s = block_loop fl r n bound (i + 1) (mark fl r s i)"
        by (subst block_loop.simps) (simp add: True pp)
      then show ?thesis using "1.IH" [OF True pp] by simp
    next
      assume pp: "processPoint fl s r i = OutOfBounds i s"
      have "block_loop fl r n bound i s = OutOfBounds i s"
        by (subst block_loop.simps) (simp add: True pp)
      then show ?thesis by simp
    qed
  qed
qed

lemma blocked_loop_run_of:
  "run_of fl r (\<lambda>j. j < n) s (blocked_loop fuel fl r n ext k idx s)"
proof (induction fuel arbitrary: idx s)
  case 0
  show ?case by simp
next
  case (Suc fuel)
  show ?case
  proof (cases "idx < n")
    case False
    then show ?thesis by simp
  next
    case True
    note inner = block_loop_run_of [of fl r n s "idx + k" idx]
    show ?thesis
    proof (cases "block_loop fl r n (idx + k) idx s")
      case (Returned s')
      with inner have "run_of fl r (\<lambda>j. j < n) s (Returned s')" by simp
      from run_of_trans [OF this Suc.IH [of s' "idx + ext * k"]]
      show ?thesis using True Returned by simp
    next
      case (OutOfBounds i s')
      with inner show ?thesis using True by simp
    next
      case (OutOfFuel s')
      with inner show ?thesis using True by simp
    qed
  qed
qed

subsection \<open>What a run leaves alone\<close>

lemma frame_refl [simp]: "frame s s"
  by (simp add: frame_def)

lemma frame_extends:
  "frame s s' \<Longrightarrow> calls s' = calls s @ drop (length (calls s)) (calls s')"
  unfolding frame_def by (metis append_take_drop_id)

lemma frame_trans:
  assumes "frame s s'" "frame s' s''"
  shows "frame s s''"
proof -
  define n1 where "n1 = drop (length (calls s)) (calls s')"
  define n2 where "n2 = drop (length (calls s')) (calls s'')"
  have c1: "calls s' = calls s @ n1" unfolding n1_def using assms(1) by (rule frame_extends)
  have c2: "calls s'' = calls s' @ n2" unfolding n2_def using assms(2) by (rule frame_extends)
  have c3: "calls s'' = calls s @ n1 @ n2" using c1 c2 by simp
  have d3: "drop (length (calls s)) (calls s'') = n1 @ n2" using c3 by simp
  have len: "length (inside (points s')) = length (inside (points s))"
    using assms(1) by (simp add: frame_def)
  have keep: "inside (points s'') ! j = inside (points s) ! j"
    if "j < length (inside (points s))" "j \<notin> unat ` set (n1 @ n2)" for j
  proof -
    from that(2) have a: "j \<notin> unat ` set n1" and b: "j \<notin> unat ` set n2" by auto
    have "inside (points s'') ! j = inside (points s') ! j"
      using assms(2) that(1) b unfolding frame_def n2_def len by blast
    also have "\<dots> = inside (points s) ! j"
      using assms(1) that(1) a unfolding frame_def n1_def by blast
    finally show ?thesis .
  qed
  show ?thesis
    unfolding frame_def d3
    using assms keep by (simp add: frame_def c3)
qed

lemma frame_mark: "frame s (mark fl r s idx)"
  by (simp add: frame_def mark_def)

lemma frame_foldl_mark: "frame s (foldl (mark fl r) s new)"
proof (induction new arbitrary: s)
  case Nil
  show ?case by simp
next
  case (Cons a new)
  have "frame s (mark fl r s a)" by (rule frame_mark)
  moreover have "frame (mark fl r s a) (foldl (mark fl r) (mark fl r s a) new)" by (rule Cons.IH)
  ultimately show ?case by (simp add: frame_trans)
qed

lemma run_of_frame: "run_of fl r P s out \<Longrightarrow> frame s (reached out)"
  unfolding run_of_def by (auto simp: frame_foldl_mark)

lemma run_of_invoked:
  assumes "run_of fl r P s out"
  shows "\<forall>j \<in> set (invoked s out). P j"
proof -
  from assms obtain new where new: "reached out = foldl (mark fl r) s new"
    "\<forall>j \<in> set new. P j" "case out of OutOfBounds i s' \<Rightarrow> P i | _ \<Rightarrow> True"
    unfolding run_of_def by blast
  have "drop (length (calls s)) (calls (reached out)) = new" by (simp add: new(1))
  then show ?thesis using new(2,3) by (cases out) (simp_all add: invoked_def)
qed

subsection \<open>The kernels as runs\<close>

lemma PixelFinderKernel_eq:
  "PixelFinderKernel fl acc s r = PixelFinderKernelOnePointPerThreadSimplified fl acc s r"
  by (simp add: PixelFinderKernel_def PixelFinderKernelOnePointPerThreadSimplified_def
      processPoint_def Let_def)

lemma exact_run_of:
  "run_of fl r (\<lambda>j. j = gridThreadIdx acc) s
     (PixelFinderKernelOnePointPerThreadSimplified fl acc s r)"
  unfolding PixelFinderKernelOnePointPerThreadSimplified_def
  by (rule run_of_processPoint) simp

lemma bounded_run_of:
  "run_of fl r (\<lambda>j. j < n) s (PixelFinderKernelOnePointPerThread fl acc s r n)"
  unfolding PixelFinderKernelOnePointPerThread_def
  by (simp add: run_of_processPoint)

lemma strided_run_of:
  "run_of fl r (\<lambda>j. j < n) s (PixelFinderKernelMultiplePointsPerThread fuel fl acc s r n)"
  unfolding PixelFinderKernelMultiplePointsPerThread_def by (rule strided_loop_run_of)

lemma blocked_run_of:
  "run_of fl r (\<lambda>j. j < n) s (PixelFinderKernelMultiplePointsPerThreadElements fuel fl acc s r n)"
  unfolding PixelFinderKernelMultiplePointsPerThreadElements_def by (rule blocked_loop_run_of)

lemma exact_invoked:
  "invoked s (PixelFinderKernelOnePointPerThreadSimplified fl acc s r) = [gridThreadIdx acc]"
  using processPoint_outcome [of fl s r "gridThreadIdx acc"]
  by (auto simp: PixelFinderKernelOnePointPerThreadSimplified_def invoked_def)

subsection \<open>Termination of the loops\<close>

lemma ceil_div_mono: "(N - i + S - 1) div S \<le> (N + S - 1) div S" for N i S :: nat
  by (rule div_le_mono) simp

lemma strided_loop_terminates:
  assumes "ext \<noteq> 0" "no_wrap (unat idx) (unat ext) (unat n)"
    and "(unat n - unat idx + unat ext - 1) div unat ext < fuel"
  shows "\<not> out_of_fuel (strided_loop fuel fl r n ext idx s)"
  using assms
proof (induction fuel arbitrary: idx s)
  case 0
  then show ?case by simp
next
  case (Suc fuel)
  have T: "0 < unat ext" using Suc.prems(1) by (simp add: unat_gt_0)
  show ?case
  proof (cases "idx < n")
    case False
    then show ?thesis by simp
  next
    case True
    then have lt: "unat idx < unat n" by (simp add: word_less_nat_alt)
    from no_wrap_step [OF Suc.prems(2) lt]
    have nw: "unat idx + unat ext < 2 ^ 32" "no_wrap (unat idx + unat ext) (unat ext) (unat n)"
      by simp_all
    have u: "unat (idx + ext) = unat idx + unat ext" using nw(1) by (rule unat_add_nowrap)
    have "(unat n - unat idx + unat ext - 1) div unat ext =
          Suc ((unat n - (unat idx + unat ext) + unat ext - 1) div unat ext)"
      using ceil_div_step [of "unat ext" "unat n - unat idx"] T lt by simp
    with Suc.prems(3) have f: "(unat n - unat (idx + ext) + unat ext - 1) div unat ext < fuel"
      by (simp add: u)
    have ih: "\<not> out_of_fuel (strided_loop fuel fl r n ext (idx + ext) (mark fl r s idx))"
      using Suc.IH [of "idx + ext" "mark fl r s idx"] Suc.prems(1) nw(2) f by (simp add: u)
    from processPoint_outcome [of fl s r idx] show ?thesis
      using True ih by auto
  qed
qed

lemma blocked_loop_terminates:
  assumes "ext * k \<noteq> 0" "no_wrap (unat idx) (unat (ext * k)) (unat n)"
    and "(unat n - unat idx + unat (ext * k) - 1) div unat (ext * k) < fuel"
  shows "\<not> out_of_fuel (blocked_loop fuel fl r n ext k idx s)"
  using assms
proof (induction fuel arbitrary: idx s)
  case 0
  then show ?case by simp
next
  case (Suc fuel)
  have T: "0 < unat (ext * k)" using Suc.prems(1) by (simp add: unat_gt_0)
  show ?case
  proof (cases "idx < n")
    case False
    then show ?thesis by simp
  next
    case True
    then have lt: "unat idx < unat n" by (simp add: word_less_nat_alt)
    from no_wrap_step [OF Suc.prems(2) lt]
    have nw: "unat idx + unat (ext * k) < 2 ^ 32"
      "no_wrap (unat idx + unat (ext * k)) (unat (ext * k)) (unat n)"
      by simp_all
    have u: "unat (idx + ext * k) = unat idx + unat (ext * k)"
      using nw(1) by (rule unat_add_nowrap)
    have "(unat n - unat idx + unat (ext * k) - 1) div unat (ext * k) =
          Suc ((unat n - (unat idx + unat (ext * k)) + unat (ext * k) - 1) div unat (ext * k))"
      using ceil_div_step [of "unat (ext * k)" "unat n - unat idx"] T lt by simp
    with Suc.prems(3)
    have f: "(unat n - unat (idx + ext * k) + unat (ext * k) - 1) div unat (ext * k) < fuel"
      by (simp add: u)
    have ih: "\<not> out_of_fuel (blocked_loop fuel fl r n ext k (idx + ext * k) s')" for s'
      using Suc.IH [of "idx + ext * k" s'] Suc.prems(1) nw(2) f by (simp add: u)
    show ?thesis
    proof (cases "block_loop fl r n (idx + k) idx s")
      case (Returned s')
      then show ?thesis using True ih by simp
    next
      case (OutOfBounds i s')
      then show ?thesis using True by simp
    next
      case (OutOfFuel s')
      then show ?thesis by (simp add: block_loop_not_OutOfFuel)
    qed
  qed
qed

lemma blocked_loop_stuck:
  assumes "ext * k = 0" "idx < n" "buffers_hold n s"
  shows "out_of_fuel (blocked_loop fuel fl r n ext k idx s)"
  using assms(3)
proof (induction fuel arbitrary: s)
  case 0
  show ?case by simp
next
  case (Suc fuel)
  have "buffers_hold n (foldl (mark fl r) s (map of_nat [unat idx..<min (unat (idx + k)) (unat n)]))"
    using Suc.prems by simp
  from Suc.IH [OF this] show ?case
    by (simp add: assms(1,2) block_loop_run [OF Suc.prems])
qed

subsection \<open>The counting loop of the host\<close>

declare count_loop.simps [simp del]




section \<open>The claims\<close>

subsection \<open>C1: the visited indices partition the problem\<close>

text \<open>
  C1, as amended. For every problem size \<open>N\<close> and every hierarchy shape with \<open>T \<ge> 1\<close>
  threads and \<open>k \<ge> 1\<close> elements per thread, with buffers of \<open>N\<close> elements: if
  \<open>N + T \<le> 2^32\<close>, the index lists of the threads \<open>i < T\<close> under the Strided policy
  (\<open>PixelFinderKernelMultiplePointsPerThread\<close>) partition \<open>[0, N)\<close>, and if
  \<open>N + T k \<le> 2^32\<close>, so do their index lists under the StridedBlocked policy
  (\<open>PixelFinderKernelMultiplePointsPerThreadElements\<close>): every kernel run returns, every
  index below \<open>N\<close> is in the list of exactly one thread, no list holds an index twice,
  and no list holds an index that is not below \<open>N\<close>.
\<close>

theorem work_partition:
  assumes "T \<noteq> 0" and "k \<noteq> 0" and "buffers_hold n s" and "unat n < fuel"
  shows "(unat n + unat T \<le> 2 ^ 32 \<longrightarrow>
           (\<forall>j. j < n \<longrightarrow> (\<exists>!i. i < T \<and> j \<in> set (strided_visits fuel fl T k i s r n))) \<and>
           (\<forall>i. i < T \<longrightarrow>
              distinct (strided_visits fuel fl T k i s r n) \<and>
              (\<forall>j \<in> set (strided_visits fuel fl T k i s r n). j < n) \<and>
              returns (PixelFinderKernelMultiplePointsPerThread fuel fl (thread T k i) s r n))) \<and>
         (unat n + unat T * unat k \<le> 2 ^ 32 \<longrightarrow>
           (\<forall>j. j < n \<longrightarrow> (\<exists>!i. i < T \<and> j \<in> set (blocked_visits fuel fl T k i s r n))) \<and>
           (\<forall>i. i < T \<longrightarrow>
              distinct (blocked_visits fuel fl T k i s r n) \<and>
              (\<forall>j \<in> set (blocked_visits fuel fl T k i s r n). j < n) \<and>
              returns (PixelFinderKernelMultiplePointsPerThreadElements fuel fl (thread T k i) s r n)))"
  using strided_partition [OF assms(1) _ assms(3,4), of fl k r]
    blocked_partition [OF assms(1,2) _ assms(3,4), of fl r]
  by blast

text \<open>
  Two threads of two elements each on the four points of the scenario: index 3 has
  exactly one owner under either policy.
\<close>

theorem work_partition_witness:
  "(2 :: u32) \<noteq> 0 \<and> buffers_hold 4 scenario \<and> unat (4 :: u32) < 5 \<and>
   unat (4 :: u32) + unat (2 :: u32) \<le> 2 ^ 32 \<and>
   unat (4 :: u32) + unat (2 :: u32) * unat (2 :: u32) \<le> 2 ^ 32 \<and>
   (\<exists>!i. i < 2 \<and> 3 \<in> set (strided_visits 5 ideal 2 2 i scenario (Fin 1) 4)) \<and>
   (\<exists>!i. i < 2 \<and> 3 \<in> set (blocked_visits 5 ideal 2 2 i scenario (Fin 1) 4)) \<and>
   distinct (blocked_visits 5 ideal 2 2 1 scenario (Fin 1) 4)"
proof -
  have a: "(2 :: u32) \<noteq> 0" by simp
  have b: "unat (4 :: u32) + unat (2 :: u32) \<le> 2 ^ 32" by simp
  have c: "unat (4 :: u32) + unat (2 :: u32) * unat (2 :: u32) \<le> 2 ^ 32" by simp
  have d: "buffers_hold 4 scenario" by (simp add: buffers_hold_def scenario_def)
  have e: "unat (4 :: u32) < 5" by simp
  have j: "(3 :: u32) < 4" and i: "(1 :: u32) < 2" by simp_all
  note S = work_partition [OF a a d e, where fl = ideal and r = "Fin 1", THEN conjunct1, THEN mp, OF b]
  note B = work_partition [OF a a d e, where fl = ideal and r = "Fin 1", THEN conjunct2, THEN mp, OF c]
  have "(\<exists>!i. i < 2 \<and> 3 \<in> set (strided_visits 5 ideal 2 2 i scenario (Fin 1) 4))"
    by (rule S [THEN conjunct1, THEN spec, THEN mp, OF j])
  moreover have "(\<exists>!i. i < 2 \<and> 3 \<in> set (blocked_visits 5 ideal 2 2 i scenario (Fin 1) 4))"
    by (rule B [THEN conjunct1, THEN spec, THEN mp, OF j])
  moreover have "distinct (blocked_visits 5 ideal 2 2 1 scenario (Fin 1) 4)"
    by (rule B [THEN conjunct2, THEN spec, THEN mp, OF i, THEN conjunct1])
  ultimately have "(\<exists>!i. i < 2 \<and> 3 \<in> set (strided_visits 5 ideal 2 2 i scenario (Fin 1) 4)) \<and>
    (\<exists>!i. i < 2 \<and> 3 \<in> set (blocked_visits 5 ideal 2 2 i scenario (Fin 1) 4)) \<and>
    distinct (blocked_visits 5 ideal 2 2 1 scenario (Fin 1) 4)"
    by (intro conjI)
  with a b c d e show ?thesis by (simp only: simp_thms)
qed

text \<open>
  C1 as stated fails where the 32-bit arithmetic wraps around. Strided, \<open>N = 2\<close>,
  \<open>T = 2^32 - 1\<close>: thread 1 visits index 1 and then index \<open>1 + T = 0\<close>, which thread 0
  visits too. StridedBlocked, \<open>N = 2\<close>, \<open>T = 65537\<close>, \<open>k = 65536\<close>: the base index
  \<open>65536 * 65536\<close> of thread 65536 is 0 in 32 bits, so that thread visits the indices 0
  and 1 of thread 0 again.
\<close>

theorem work_partition_counterexample:
  "strided_visits 3 ideal 4294967295 1 0 scenario (Fin 1) 2 = [0] \<and>
   strided_visits 3 ideal 4294967295 1 1 scenario (Fin 1) 2 = [1, 0] \<and>
   blocked_visits 3 ideal 65537 65536 0 scenario (Fin 1) 2 = [0, 1] \<and>
   blocked_visits 3 ideal 65537 65536 65536 scenario (Fin 1) 2 = [0, 1]"
  by (simp add: strided_visits_def blocked_visits_def invoked_def
      PixelFinderKernelMultiplePointsPerThread_def
      PixelFinderKernelMultiplePointsPerThreadElements_def thread_def numeral_3_eq_3
      block_loop.simps processPoint_def scenario_def Let_def)

subsection \<open>C3: the index sequence of the Strided policy\<close>

text \<open>
  C3, as amended. Under the Strided policy (\<open>PixelFinderKernelMultiplePointsPerThread\<close>),
  for every problem size \<open>N\<close> and every thread count \<open>T \<ge> 1\<close>, with no condition
  relating \<open>N\<close> and \<open>T\<close>, the thread with index \<open>i\<close> returns and has processed
  exactly the indices \<open>i\<close>, \<open>i + T\<close>, \<open>i + 2 T\<close>, ... in increasing order, the
  \<open>m\<close>-th of them being present exactly if \<open>i + m T < N\<close>, provided that no
  addition \<open>idx + T\<close> at a position \<open>idx < N\<close> of this thread exceeds 32 bits
  (and the buffers hold \<open>N\<close> elements).
\<close>

theorem strided_visits_own_sequence:
  assumes "gridThreadExtent acc \<noteq> 0"
    and "no_wrap (unat (gridThreadIdx acc)) (unat (gridThreadExtent acc)) (unat n)"
    and "buffers_hold n s"
    and "unat n < fuel"
  shows "returns (PixelFinderKernelMultiplePointsPerThread fuel fl acc s r n) \<and>
         calls (reached (PixelFinderKernelMultiplePointsPerThread fuel fl acc s r n)) =
           calls s @ map of_nat (strided_seq (unat (gridThreadIdx acc))
                                   (unat (gridThreadExtent acc)) (unat n)) \<and>
         (\<forall>m. (m < length (strided_seq (unat (gridThreadIdx acc))
                                   (unat (gridThreadExtent acc)) (unat n))) =
               (unat (gridThreadIdx acc) + m * unat (gridThreadExtent acc) < unat n)) \<and>
         sorted_wrt (<) (strided_seq (unat (gridThreadIdx acc))
                                   (unat (gridThreadExtent acc)) (unat n))"
proof -
  have T: "0 < unat (gridThreadExtent acc)" using assms(1) by (simp add: unat_gt_0)
  have "(unat n - unat (gridThreadIdx acc) + unat (gridThreadExtent acc) - 1)
          div unat (gridThreadExtent acc) \<le> unat n - unat (gridThreadIdx acc)"
    using ceil_le [OF T] by simp
  then have "(unat n - unat (gridThreadIdx acc) + unat (gridThreadExtent acc) - 1)
          div unat (gridThreadExtent acc) < fuel" using assms(4) by simp
  from strided_loop_run [OF assms(1) assms(2) assms(3) this]
  show ?thesis
    by (simp add: PixelFinderKernelMultiplePointsPerThread_def strided_seq_index [OF T]
        sorted_strided_seq [OF T])
qed

text \<open>Thread 1 of 2 on the four points of the scenario visits 1 and 3.\<close>

theorem strided_visits_own_sequence_witness:
  "gridThreadExtent (thread 2 1 1) \<noteq> 0 \<and>
   no_wrap (unat (gridThreadIdx (thread 2 1 1))) (unat (gridThreadExtent (thread 2 1 1))) (unat (4 :: u32)) \<and>
   buffers_hold 4 scenario \<and> unat (4 :: u32) < 5 \<and>
   calls (reached (PixelFinderKernelMultiplePointsPerThread 5 ideal (thread 2 1 1) scenario (Fin 1) 4))
     = [1, 3]"
proof -
  have a: "gridThreadExtent (thread 2 1 1) \<noteq> 0" by (simp add: thread_def)
  have b: "no_wrap (unat (gridThreadIdx (thread 2 1 1))) (unat (gridThreadExtent (thread 2 1 1))) (unat (4 :: u32))"
    by (rule no_wrap_static) (simp add: thread_def)
  have c: "buffers_hold 4 scenario" by (simp add: buffers_hold_def scenario_def)
  have d: "unat (4 :: u32) < 5" by simp
  have e: "strided_seq 1 2 4 = [1, 3]"
    by (simp add: strided_seq_def upt_rec)
  from strided_visits_own_sequence [OF a b c d, of ideal "Fin 1"] a b c d e
  show ?thesis by (simp add: thread_def scenario_def)
qed

text \<open>
  C3 as stated fails where the addition wraps around: with \<open>N = 2\<close> and
  \<open>T = 2^32 - 1\<close>, thread 1 processes index 1, then \<open>1 + T\<close> is 0 in 32 bits, which
  is below \<open>N\<close>, and the thread processes index 0 as well; the sequence of the claim
  stops after index 1.
\<close>

theorem strided_wraps_counterexample:
  "calls (reached (PixelFinderKernelMultiplePointsPerThread 3 ideal (thread 4294967295 1 1)
      scenario (Fin 1) 2)) = [1, 0] \<and>
   map of_nat (strided_seq (unat (1 :: u32)) (unat (4294967295 :: u32)) (unat (2 :: u32)))
     = [1 :: u32]"
  by (simp add: PixelFinderKernelMultiplePointsPerThread_def thread_def numeral_3_eq_3
      processPoint_def scenario_def Let_def strided_seq_def)

subsection \<open>C4: contiguous runs, and one element per thread\<close>

text \<open>
  C4, as amended. For every problem size \<open>N\<close>, thread count \<open>T \<ge> 1\<close>, thread
  \<open>i < T\<close> and \<open>k \<ge> 1\<close> elements per thread with \<open>N + T k \<le> 2^32\<close> (and buffers
  of \<open>N\<close> elements), the StridedBlocked kernel returns and the thread visits its indices
  in contiguous runs: from the base \<open>i k\<close> in steps of \<open>T k\<close>, at each position
  \<open>p < N\<close> the indices \<open>p, ..., min (p + k) N - 1\<close>, and every run that another run
  follows has all its \<open>k\<close> indices. For \<open>k = 1\<close>, for every input (wrap-around or
  not, any fuel, any buffers), the StridedBlocked kernel has the outcome of the Strided
  kernel, final state and index sequence included.
\<close>

theorem blocked_runs:
  "(T \<noteq> 0 \<and> k \<noteq> 0 \<and> i < T \<and> unat n + unat T * unat k \<le> 2 ^ 32 \<and>
    buffers_hold n s \<and> unat n < fuel \<longrightarrow>
      returns (PixelFinderKernelMultiplePointsPerThreadElements fuel fl (thread T k i) s r n) \<and>
      blocked_visits fuel fl T k i s r n =
        map of_nat (blocked_seq (unat i * unat k) (unat T * unat k) (unat k) (unat n)) \<and>
      (\<forall>m. unat i * unat k + Suc m * (unat T * unat k) < unat n \<longrightarrow>
           unat i * unat k + m * (unat T * unat k) + unat k \<le> unat n)) \<and>
   PixelFinderKernelMultiplePointsPerThreadElements fuel fl (thread T 1 i) s r n =
     PixelFinderKernelMultiplePointsPerThread fuel fl (thread T 1 i) s r n \<and>
   blocked_visits fuel fl T 1 i s r n = strided_visits fuel fl T 1 i s r n"
proof (intro conjI impI allI)
  assume h: "T \<noteq> 0 \<and> k \<noteq> 0 \<and> i < T \<and> unat n + unat T * unat k \<le> 2 ^ 32 \<and>
    buffers_hold n s \<and> unat n < fuel"
  then have a: "T \<noteq> 0" "k \<noteq> 0" "i < T" "unat n + unat T * unat k \<le> 2 ^ 32"
    "buffers_hold n s" "unat n < fuel" by simp_all
  show "returns (PixelFinderKernelMultiplePointsPerThreadElements fuel fl (thread T k i) s r n)"
    by (simp only: blocked_kernel_static [OF a] returns.simps)
  show "blocked_visits fuel fl T k i s r n =
        map of_nat (blocked_seq (unat i * unat k) (unat T * unat k) (unat k) (unat n))"
    by (rule blocked_visits_static [OF a])
  fix m
  assume "unat i * unat k + Suc m * (unat T * unat k) < unat n"
  moreover have "0 < unat T" using a(1) by (simp add: unat_gt_0)
  then have "unat k \<le> unat T * unat k" by simp
  ultimately show "unat i * unat k + m * (unat T * unat k) + unat k \<le> unat n"
    by (rule full_runs [rotated])
next
  show eq: "PixelFinderKernelMultiplePointsPerThreadElements fuel fl (thread T 1 i) s r n =
     PixelFinderKernelMultiplePointsPerThread fuel fl (thread T 1 i) s r n"
    by (simp add: PixelFinderKernelMultiplePointsPerThreadElements_def
        PixelFinderKernelMultiplePointsPerThread_def thread_def blocked_loop_single)
  show "blocked_visits fuel fl T 1 i s r n = strided_visits fuel fl T 1 i s r n"
    by (simp only: blocked_visits_def strided_visits_def eq)
qed

text \<open>Thread 1 of 2 with two elements each on four points visits the run 2, 3.\<close>

theorem blocked_runs_witness:
  "(2 :: u32) \<noteq> 0 \<and> (1 :: u32) < 2 \<and> unat (4 :: u32) + unat (2 :: u32) * unat (2 :: u32) \<le> 2 ^ 32 \<and>
   buffers_hold 4 scenario \<and> unat (4 :: u32) < 5 \<and>
   blocked_visits 5 ideal 2 2 1 scenario (Fin 1) 4 =
     map of_nat (blocked_seq (unat (1 :: u32) * unat (2 :: u32)) (unat (2 :: u32) * unat (2 :: u32))
       (unat (2 :: u32)) (unat (4 :: u32))) \<and>
   blocked_seq 2 4 2 4 = [2, 3]"
proof -
  have a: "(2 :: u32) \<noteq> 0" and i: "(1 :: u32) < 2" by simp_all
  have c: "unat (4 :: u32) + unat (2 :: u32) * unat (2 :: u32) \<le> 2 ^ 32" by simp
  have d: "buffers_hold 4 scenario" by (simp add: buffers_hold_def scenario_def)
  have e: "unat (4 :: u32) < 5" by simp
  have h: "(2 :: u32) \<noteq> 0 \<and> (2 :: u32) \<noteq> 0 \<and> (1 :: u32) < 2 \<and>
    unat (4 :: u32) + unat (2 :: u32) * unat (2 :: u32) \<le> 2 ^ 32 \<and>
    buffers_hold 4 scenario \<and> unat (4 :: u32) < 5"
    using a i c d e by (simp only: simp_thms)
  note R = blocked_runs [where T = 2 and k = 2 and i = 1 and n = 4 and s = scenario and fuel = 5
      and fl = ideal and r = "Fin 1", THEN conjunct1, THEN mp, OF h, THEN conjunct2, THEN conjunct1]
  have q: "blocked_seq 2 4 2 4 = [2, 3]" by (simp add: blocked_seq_def upt_rec)
  from a i c d e R q show ?thesis by (simp only: simp_thms)
qed

text \<open>
  C4 as stated fails where the stride wraps around: with \<open>N = 3\<close>, \<open>T = 2^31 - 1\<close>
  and \<open>k = 2\<close>, thread 1 visits the run at position 2, truncated at \<open>N\<close> to the
  index 2 alone, then \<open>2 + T k\<close> is 0 in 32 bits and the thread visits a further run
  0, 1: the truncated run is not the last one, and the sequence is not that of the
  specification.
\<close>

theorem blocked_runs_counterexample:
  "blocked_visits 3 ideal 2147483647 2 1 scenario (Fin 1) 3 = [2, 0, 1] \<and>
   map of_nat (blocked_seq (unat (1 :: u32) * unat (2 :: u32))
     (unat (2147483647 :: u32) * unat (2 :: u32)) (unat (2 :: u32)) (unat (3 :: u32))) = [2 :: u32]"
proof
  show "blocked_visits 3 ideal 2147483647 2 1 scenario (Fin 1) 3 = [2, 0, 1]"
    by (simp add: blocked_visits_def invoked_def
      PixelFinderKernelMultiplePointsPerThreadElements_def thread_def numeral_3_eq_3
      block_loop.simps processPoint_def scenario_def Let_def)
  show "map of_nat (blocked_seq (unat (1 :: u32) * unat (2 :: u32))
     (unat (2147483647 :: u32) * unat (2 :: u32)) (unat (2 :: u32)) (unat (3 :: u32))) = [2 :: u32]"
    by (simp add: blocked_seq_def upt_rec)
qed

subsection \<open>C5: as many threads as points\<close>

text \<open>
  C5, as amended. Whenever the problem size \<open>N\<close> equals the thread count and
  \<open>N \<le> 2^31\<close> (with buffers of \<open>N\<close> elements), the Exact policy
  (\<open>PixelFinderKernelOnePointPerThreadSimplified\<close>), the Bounded policy
  (\<open>PixelFinderKernelOnePointPerThread\<close>) and the Strided policy
  (\<open>PixelFinderKernelMultiplePointsPerThread\<close>) each make every thread \<open>i < N\<close>
  visit exactly its own index \<open>i\<close>; the three kernels return the same state, and
  every index in \<open>[0, N)\<close> is visited by exactly one thread, once.
\<close>

theorem own_index_when_sizes_agree:
  assumes "unat n \<le> 2 ^ 31" and "buffers_hold n s" and "2 \<le> fuel"
  shows "(\<forall>i. i < n \<longrightarrow>
           PixelFinderKernelOnePointPerThreadSimplified fl (thread n k i) s r =
             Returned (mark fl r s i) \<and>
           PixelFinderKernelOnePointPerThread fl (thread n k i) s r n =
             Returned (mark fl r s i) \<and>
           PixelFinderKernelMultiplePointsPerThread fuel fl (thread n k i) s r n =
             Returned (mark fl r s i) \<and>
           strided_visits fuel fl n k i s r n = [i]) \<and>
         (\<forall>j. j < n \<longrightarrow> (\<exists>!i. i < n \<and> j \<in> set (strided_visits fuel fl n k i s r n)))"
proof (intro conjI allI impI)
  fix j assume j: "j < n"
  note v = own_index_kernels [OF _ assms, THEN conjunct2, THEN conjunct2, THEN conjunct2]
  show "\<exists>!i. i < n \<and> j \<in> set (strided_visits fuel fl n k i s r n)"
  proof (rule ex1I)
    show "j < n \<and> j \<in> set (strided_visits fuel fl n k j s r n)"
      using j by (simp add: v [OF j])
    fix i assume i: "i < n \<and> j \<in> set (strided_visits fuel fl n k i s r n)"
    then have "j \<in> set [i]" using v [of i fl k r] by simp
    then show "i = j" by simp
  qed
qed (simp_all only: own_index_kernels [OF _ assms])

text \<open>Four threads on the four points of the scenario: thread 3 visits index 3.\<close>

theorem own_index_when_sizes_agree_witness:
  "unat (4 :: u32) \<le> 2 ^ 31 \<and> buffers_hold 4 scenario \<and> (2 :: nat) \<le> 2 \<and> (3 :: u32) < 4 \<and>
   PixelFinderKernelMultiplePointsPerThread 2 ideal (thread 4 1 3) scenario (Fin 1) 4 =
     Returned (mark ideal (Fin 1) scenario 3) \<and>
   PixelFinderKernelOnePointPerThreadSimplified ideal (thread 4 1 3) scenario (Fin 1) =
     Returned (mark ideal (Fin 1) scenario 3) \<and>
   strided_visits 2 ideal 4 1 3 scenario (Fin 1) 4 = [3]"
proof -
  have a: "(3 :: u32) < 4" by simp
  have b: "unat (4 :: u32) \<le> 2 ^ 31" by simp
  have c: "buffers_hold 4 scenario" by (simp add: buffers_hold_def scenario_def)
  have d: "(2 :: nat) \<le> 2" by simp
  note K = own_index_when_sizes_agree [OF b c d, where fl = ideal and k = 1 and r = "Fin 1",
      THEN conjunct1, THEN spec, THEN mp, OF a]
  from K a b c d show ?thesis by (simp only: simp_thms)
qed

text \<open>
  C5 as stated fails for \<open>N\<close> above \<open>2^31\<close>: with \<open>N = T = 2^31 + 1\<close>, thread
  \<open>2^31\<close> visits its own index under the Exact and the Bounded policy, and under the
  Strided policy it goes on to \<open>2^31 + T\<close>, which is 1 in 32 bits and below \<open>N\<close>,
  and visits index 1 as well.
\<close>

theorem own_index_when_sizes_agree_counterexample:
  "strided_visits 3 ideal 2147483649 1 2147483648 (origin_points 2147483649) (Fin 1) 2147483649
     = [2147483648, 1] \<and>
   invoked (origin_points 2147483649)
     (PixelFinderKernelOnePointPerThreadSimplified ideal (thread 2147483649 1 2147483648)
        (origin_points 2147483649) (Fin 1)) = [2147483648] \<and>
   invoked (origin_points 2147483649)
     (PixelFinderKernelOnePointPerThread ideal (thread 2147483649 1 2147483648)
        (origin_points 2147483649) (Fin 1) 2147483649) = [2147483648]"
proof -
  have b: "buffers_hold 2147483649 (origin_points 2147483649)"
    by (rule buffers_hold_origin_points) simp
  have i: "(2147483648 :: u32) < 2147483649" and j: "(1 :: u32) < 2147483649" by simp_all
  have b': "buffers_hold 2147483649 (mark ideal (Fin 1) (origin_points 2147483649) 2147483648)"
    using b by simp
  have w: "(4294967297 :: u32) = 1" by simp
  show ?thesis
    by (simp add: strided_visits_def invoked_def PixelFinderKernelMultiplePointsPerThread_def
        PixelFinderKernelOnePointPerThreadSimplified_def PixelFinderKernelOnePointPerThread_def
        thread_def numeral_3_eq_3 w processPoint_in_bounds [OF i b] processPoint_in_bounds [OF j b'])
qed

subsection \<open>C2: no classifier call at an index outside the problem\<close>

text \<open>
  C2, as amended. For every problem size \<open>N\<close>, every thread and every hierarchy
  shape, for every fuel and whatever the buffers hold (wrapped-around runs and runs that
  never end included), the Bounded, Strided and StridedBlocked kernels invoke
  \<open>processPoint\<close> only with indices below \<open>N\<close>; a thread whose first index is not
  below \<open>N\<close> invokes nothing and returns the state unchanged. The Exact kernel takes
  no \<open>N\<close> and invokes \<open>processPoint\<close> exactly once, with the thread's own index:
  that index is below \<open>N\<close> if the thread index is, which is the caller's obligation.
\<close>

theorem classifier_index_in_range:
  "(\<forall>j \<in> set (invoked s (PixelFinderKernelOnePointPerThread fl acc s r n)). j < n) \<and>
   (\<forall>j \<in> set (invoked s (PixelFinderKernelMultiplePointsPerThread fuel fl acc s r n)). j < n) \<and>
   (\<forall>j \<in> set (invoked s
        (PixelFinderKernelMultiplePointsPerThreadElements fuel fl acc s r n)). j < n) \<and>
   (\<not> gridThreadIdx acc < n \<longrightarrow>
      PixelFinderKernelOnePointPerThread fl acc s r n = Returned s \<and>
      PixelFinderKernelMultiplePointsPerThread (Suc fuel) fl acc s r n = Returned s) \<and>
   (\<not> gridThreadIdx acc * threadElementExtent acc < n \<longrightarrow>
      PixelFinderKernelMultiplePointsPerThreadElements (Suc fuel) fl acc s r n = Returned s) \<and>
   invoked s (PixelFinderKernelOnePointPerThreadSimplified fl acc s r) = [gridThreadIdx acc] \<and>
   (gridThreadIdx acc < n \<longrightarrow>
      (\<forall>j \<in> set (invoked s (PixelFinderKernelOnePointPerThreadSimplified fl acc s r)). j < n))"
proof (intro conjI impI)
  show "\<forall>j \<in> set (invoked s (PixelFinderKernelOnePointPerThread fl acc s r n)). j < n"
    by (rule run_of_invoked [OF bounded_run_of])
  show "\<forall>j \<in> set (invoked s (PixelFinderKernelMultiplePointsPerThread fuel fl acc s r n)). j < n"
    by (rule run_of_invoked [OF strided_run_of])
  show "\<forall>j \<in> set (invoked s
        (PixelFinderKernelMultiplePointsPerThreadElements fuel fl acc s r n)). j < n"
    by (rule run_of_invoked [OF blocked_run_of])
  show "invoked s (PixelFinderKernelOnePointPerThreadSimplified fl acc s r) = [gridThreadIdx acc]"
    by (rule exact_invoked)
next
  assume "\<not> gridThreadIdx acc < n"
  then show "PixelFinderKernelOnePointPerThread fl acc s r n = Returned s"
    and "PixelFinderKernelMultiplePointsPerThread (Suc fuel) fl acc s r n = Returned s"
    by (simp_all add: PixelFinderKernelOnePointPerThread_def
        PixelFinderKernelMultiplePointsPerThread_def)
next
  assume "\<not> gridThreadIdx acc * threadElementExtent acc < n"
  then show "PixelFinderKernelMultiplePointsPerThreadElements (Suc fuel) fl acc s r n = Returned s"
    by (simp add: PixelFinderKernelMultiplePointsPerThreadElements_def)
next
  assume "gridThreadIdx acc < n"
  then show "\<forall>j \<in> set (invoked s (PixelFinderKernelOnePointPerThreadSimplified fl acc s r)). j < n"
    by (simp add: exact_invoked)
qed

text \<open>
  Thread 5 of 8 on the four points of the scenario does nothing under the Bounded and the
  Strided policy; thread 3 under the Exact policy invokes the classifier at index 3.
\<close>

theorem classifier_index_in_range_witness:
  "\<not> gridThreadIdx (thread 8 1 5) < (4 :: u32) \<and>
   PixelFinderKernelOnePointPerThread ideal (thread 8 1 5) scenario (Fin 1) 4 = Returned scenario \<and>
   PixelFinderKernelMultiplePointsPerThread (Suc 0) ideal (thread 8 1 5) scenario (Fin 1) 4 =
     Returned scenario \<and>
   gridThreadIdx (thread 8 1 3) < (4 :: u32) \<and>
   invoked scenario (PixelFinderKernelOnePointPerThreadSimplified ideal (thread 8 1 3) scenario (Fin 1))
     = [gridThreadIdx (thread 8 1 3)]"
proof -
  have a: "\<not> gridThreadIdx (thread 8 1 5) < (4 :: u32)" by (simp add: thread_def)
  have b: "gridThreadIdx (thread 8 1 3) < (4 :: u32)" by (simp add: thread_def)
  note A = classifier_index_in_range [where acc = "thread 8 1 5" and n = 4 and fl = ideal
      and s = scenario and r = "Fin 1" and fuel = 0]
  note B = classifier_index_in_range [where acc = "thread 8 1 3" and n = 4 and fl = ideal
      and s = scenario and r = "Fin 1" and fuel = 0]
  note A4 = A [THEN conjunct2, THEN conjunct2, THEN conjunct2, THEN conjunct1, THEN mp, OF a]
  note B6 = B [THEN conjunct2, THEN conjunct2, THEN conjunct2, THEN conjunct2, THEN conjunct2,
      THEN conjunct1]
  from a b A4 B6 show ?thesis by (simp only: simp_thms)
qed

text \<open>
  C2 as stated fails for the Exact policy: thread 5 of a launch of 8 threads on the four
  points of the scenario invokes the classifier at index 5, outside the buffers.
\<close>

theorem classifier_index_in_range_counterexample:
  "PixelFinderKernelOnePointPerThreadSimplified ideal (thread 8 1 5) scenario (Fin 1) =
     OutOfBounds 5 scenario \<and>
   invoked scenario
     (PixelFinderKernelOnePointPerThreadSimplified ideal (thread 8 1 5) scenario (Fin 1)) = [5] \<and>
   \<not> (5 :: u32) < 4 \<and> length (inside (points scenario)) = 4"
  by (simp add: PixelFinderKernelOnePointPerThreadSimplified_def thread_def processPoint_def
      scenario_def invoked_def Let_def)

subsection \<open>C10: the kernels write flags only\<close>

text \<open>
  C10. A call of \<open>processPoint\<close> that returns has written exactly
  \<open>points.inside[idx]\<close>, and a call that leaves the buffers has written nothing. Every
  kernel variant (the four of the homework and \<open>PixelFinderKernel\<close> of lessons 24 and
  25), for every thread, fuel and state, leaves the \<open>x\<close> and \<open>y\<close> buffers and the
  size of the flag buffer as they were, and every flag at an index that is not among the
  indices the run processed. This is kept by running threads one after another, so no
  sequence of thread runs changes \<open>x\<close>, \<open>y\<close> or the flag of an index that no thread
  processed.
\<close>

theorem kernels_write_flags_only:
  "(processPoint fl s r idx = Returned s' \<longrightarrow>
      points s' = (points s)\<lparr>inside :=
        (inside (points s))[unat idx := classify fl (points s) r (unat idx)]\<rparr> \<and>
      calls s' = calls s @ [idx]) \<and>
   (processPoint fl s r idx = OutOfBounds i s' \<longrightarrow> s' = s) \<and>
   frame s (reached (processPoint fl s r idx)) \<and>
   frame s (reached (PixelFinderKernelOnePointPerThreadSimplified fl acc s r)) \<and>
   frame s (reached (PixelFinderKernelOnePointPerThread fl acc s r n)) \<and>
   frame s (reached (PixelFinderKernelMultiplePointsPerThread fuel fl acc s r n)) \<and>
   frame s (reached (PixelFinderKernelMultiplePointsPerThreadElements fuel fl acc s r n)) \<and>
   frame s (reached (PixelFinderKernel fl acc s r)) \<and>
   (frame s1 s2 \<and> frame s2 s3 \<longrightarrow> frame s1 s3)"
proof (intro conjI impI)
  assume "processPoint fl s r idx = Returned s'"
  with processPoint_outcome [of fl s r idx] have "s' = mark fl r s idx" by auto
  then show "points s' = (points s)\<lparr>inside :=
        (inside (points s))[unat idx := classify fl (points s) r (unat idx)]\<rparr>"
    and "calls s' = calls s @ [idx]" by (simp_all add: mark_def)
next
  assume "processPoint fl s r idx = OutOfBounds i s'"
  with processPoint_outcome [of fl s r idx] show "s' = s" by auto
next
  show "frame s (reached (processPoint fl s r idx))"
    by (rule run_of_frame [OF run_of_processPoint [where P = "\<lambda>j. True"]]) simp
  show "frame s (reached (PixelFinderKernelOnePointPerThreadSimplified fl acc s r))"
    by (rule run_of_frame [OF exact_run_of])
  show "frame s (reached (PixelFinderKernelOnePointPerThread fl acc s r n))"
    by (rule run_of_frame [OF bounded_run_of])
  show "frame s (reached (PixelFinderKernelMultiplePointsPerThread fuel fl acc s r n))"
    by (rule run_of_frame [OF strided_run_of])
  show "frame s (reached (PixelFinderKernelMultiplePointsPerThreadElements fuel fl acc s r n))"
    by (rule run_of_frame [OF blocked_run_of])
  show "frame s (reached (PixelFinderKernel fl acc s r))"
    unfolding PixelFinderKernel_eq by (rule run_of_frame [OF exact_run_of])
next
  assume "frame s1 s2 \<and> frame s2 s3"
  then show "frame s1 s3" using frame_trans by blast
qed

text \<open>
  Thread 1 of 2 under the Strided policy on the scenario sets the flags of the points 1
  and 3 and leaves the others.
\<close>

theorem kernels_write_flags_only_witness:
  "processPoint ideal scenario (Fin 1) 1 = Returned (mark ideal (Fin 1) scenario 1) \<and>
   points (mark ideal (Fin 1) scenario 1) =
     (points scenario)\<lparr>inside := [False, True, False, False]\<rparr> \<and>
   frame scenario
     (reached (PixelFinderKernelMultiplePointsPerThread (Suc (Suc (Suc 0))) ideal (thread 2 1 1) scenario (Fin 1) 4)) \<and>
   inside (points
     (reached (PixelFinderKernelMultiplePointsPerThread (Suc (Suc (Suc 0))) ideal (thread 2 1 1) scenario (Fin 1) 4)))
     = [False, True, False, True]"
proof -
  have pp: "processPoint ideal scenario (Fin 1) 1 = Returned (mark ideal (Fin 1) scenario 1)"
    by (rule processPoint_in_bounds [of 1 4]) (simp_all add: buffers_hold_def scenario_def)
  note K = kernels_write_flags_only [where fl = ideal and s = scenario and r = "Fin 1"
      and idx = 1 and s' = "mark ideal (Fin 1) scenario 1" and acc = "thread 2 1 1" and n = 4
      and fuel = "Suc (Suc (Suc 0))"]
  from K [THEN conjunct1, THEN mp, OF pp, THEN conjunct1]
  have w: "points (mark ideal (Fin 1) scenario 1) =
     (points scenario)\<lparr>inside := [False, True, False, False]\<rparr>"
    by (simp add: scenario_def classify_def ideal_def)
  note f = K [THEN conjunct2, THEN conjunct2, THEN conjunct2, THEN conjunct2, THEN conjunct2,
      THEN conjunct1]
  have v: "inside (points
     (reached (PixelFinderKernelMultiplePointsPerThread (Suc (Suc (Suc 0))) ideal (thread 2 1 1) scenario (Fin 1) 4)))
     = [False, True, False, True]"
    by (simp add: PixelFinderKernelMultiplePointsPerThread_def thread_def
        processPoint_def scenario_def ideal_def Let_def)
  from pp w f v show ?thesis by (simp only: simp_thms)
qed

subsection \<open>C9: the loops terminate\<close>

text \<open>
  C9, as amended. One unit of fuel pays for one evaluation of an outer loop condition, so
  a run that does not run out of \<open>f + 1\<close> units has visited at most \<open>f\<close> outer
  positions. For every thread, state and problem size \<open>N\<close>: if the stride as computed
  in 32 bits (\<open>gridThreadExtent\<close> for the Strided kernel,
  \<open>gridThreadExtent * threadElementExtent\<close> modulo \<open>2^32\<close> for the StridedBlocked
  kernel) is not 0 and no addition of the stride to a loop position below \<open>N\<close> of the
  thread wraps around, then the kernel does not run out of any fuel above
  \<open>ceil (N / stride)\<close>: it returns (or leaves the buffers) after at most
  \<open>ceil (N / stride)\<close> outer positions. The inner loop of the StridedBlocked kernel
  terminates from every state, since \<open>i + 1\<close> cannot wrap around while \<open>i < N\<close>.
\<close>

theorem loops_terminate:
  "(gridThreadExtent acc \<noteq> 0 \<and>
    no_wrap (unat (gridThreadIdx acc)) (unat (gridThreadExtent acc)) (unat n) \<and>
    (unat n + unat (gridThreadExtent acc) - 1) div unat (gridThreadExtent acc) < fuel \<longrightarrow>
      \<not> out_of_fuel (PixelFinderKernelMultiplePointsPerThread fuel fl acc s r n)) \<and>
   (gridThreadExtent acc * threadElementExtent acc \<noteq> 0 \<and>
    no_wrap (unat (gridThreadIdx acc * threadElementExtent acc))
      (unat (gridThreadExtent acc * threadElementExtent acc)) (unat n) \<and>
    (unat n + unat (gridThreadExtent acc * threadElementExtent acc) - 1)
      div unat (gridThreadExtent acc * threadElementExtent acc) < fuel \<longrightarrow>
      \<not> out_of_fuel (PixelFinderKernelMultiplePointsPerThreadElements fuel fl acc s r n)) \<and>
   \<not> out_of_fuel (block_loop fl r n bound i s)"
proof (intro conjI impI)
  assume h: "gridThreadExtent acc \<noteq> 0 \<and>
    no_wrap (unat (gridThreadIdx acc)) (unat (gridThreadExtent acc)) (unat n) \<and>
    (unat n + unat (gridThreadExtent acc) - 1) div unat (gridThreadExtent acc) < fuel"
  then have "(unat n - unat (gridThreadIdx acc) + unat (gridThreadExtent acc) - 1)
      div unat (gridThreadExtent acc) < fuel"
    using ceil_div_mono [of "unat n" "unat (gridThreadIdx acc)" "unat (gridThreadExtent acc)"]
    by simp
  with h show "\<not> out_of_fuel (PixelFinderKernelMultiplePointsPerThread fuel fl acc s r n)"
    unfolding PixelFinderKernelMultiplePointsPerThread_def
    by (intro strided_loop_terminates) simp_all
next
  assume h: "gridThreadExtent acc * threadElementExtent acc \<noteq> 0 \<and>
    no_wrap (unat (gridThreadIdx acc * threadElementExtent acc))
      (unat (gridThreadExtent acc * threadElementExtent acc)) (unat n) \<and>
    (unat n + unat (gridThreadExtent acc * threadElementExtent acc) - 1)
      div unat (gridThreadExtent acc * threadElementExtent acc) < fuel"
  then have "(unat n - unat (gridThreadIdx acc * threadElementExtent acc) +
      unat (gridThreadExtent acc * threadElementExtent acc) - 1)
      div unat (gridThreadExtent acc * threadElementExtent acc) < fuel"
    using ceil_div_mono [of "unat n" "unat (gridThreadIdx acc * threadElementExtent acc)"
        "unat (gridThreadExtent acc * threadElementExtent acc)"]
    by simp
  with h show "\<not> out_of_fuel (PixelFinderKernelMultiplePointsPerThreadElements fuel fl acc s r n)"
    unfolding PixelFinderKernelMultiplePointsPerThreadElements_def
    by (intro blocked_loop_terminates) simp_all
next
  show "\<not> out_of_fuel (block_loop fl r n bound i s)"
    by (cases "block_loop fl r n bound i s") (simp_all add: block_loop_not_OutOfFuel)
qed

text \<open>Thread 1 of 2 with two elements each on four points: three units of fuel suffice.\<close>

theorem loops_terminate_witness:
  "gridThreadExtent (thread 2 2 1) \<noteq> 0 \<and>
   no_wrap (unat (gridThreadIdx (thread 2 2 1))) (unat (gridThreadExtent (thread 2 2 1)))
     (unat (4 :: u32)) \<and>
   (unat (4 :: u32) + unat (gridThreadExtent (thread 2 2 1)) - 1)
     div unat (gridThreadExtent (thread 2 2 1)) < 3 \<and>
   gridThreadExtent (thread 2 2 1) * threadElementExtent (thread 2 2 1) \<noteq> 0 \<and>
   no_wrap (unat (gridThreadIdx (thread 2 2 1) * threadElementExtent (thread 2 2 1)))
     (unat (gridThreadExtent (thread 2 2 1) * threadElementExtent (thread 2 2 1)))
     (unat (4 :: u32)) \<and>
   (unat (4 :: u32) + unat (gridThreadExtent (thread 2 2 1) * threadElementExtent (thread 2 2 1)) - 1)
     div unat (gridThreadExtent (thread 2 2 1) * threadElementExtent (thread 2 2 1)) < 3 \<and>
   \<not> out_of_fuel (PixelFinderKernelMultiplePointsPerThread 3 ideal (thread 2 2 1)
        scenario (Fin 1) 4) \<and>
   \<not> out_of_fuel (PixelFinderKernelMultiplePointsPerThreadElements 3 ideal (thread 2 2 1)
        scenario (Fin 1) 4)"
proof -
  have a: "gridThreadExtent (thread 2 2 1) \<noteq> 0 \<and>
    no_wrap (unat (gridThreadIdx (thread 2 2 1))) (unat (gridThreadExtent (thread 2 2 1)))
      (unat (4 :: u32)) \<and>
    (unat (4 :: u32) + unat (gridThreadExtent (thread 2 2 1)) - 1)
      div unat (gridThreadExtent (thread 2 2 1)) < 3"
    by (intro conjI no_wrap_static) (simp_all add: thread_def)
  have b: "gridThreadExtent (thread 2 2 1) * threadElementExtent (thread 2 2 1) \<noteq> 0 \<and>
    no_wrap (unat (gridThreadIdx (thread 2 2 1) * threadElementExtent (thread 2 2 1)))
      (unat (gridThreadExtent (thread 2 2 1) * threadElementExtent (thread 2 2 1)))
      (unat (4 :: u32)) \<and>
    (unat (4 :: u32) + unat (gridThreadExtent (thread 2 2 1) * threadElementExtent (thread 2 2 1)) - 1)
      div unat (gridThreadExtent (thread 2 2 1) * threadElementExtent (thread 2 2 1)) < 3"
    by (intro conjI no_wrap_static) (simp_all add: thread_def)
  note K = loops_terminate [where acc = "thread 2 2 1" and n = 4 and fuel = 3 and fl = ideal
      and s = scenario and r = "Fin 1"]
  note A = K [THEN conjunct1, THEN mp, OF a]
  note B = K [THEN conjunct2, THEN conjunct1, THEN mp, OF b]
  from a b A B show ?thesis by (simp only: simp_thms)
qed

text \<open>
  C9 as stated asks for one thread at least and for additions that do not wrap around.
  With \<open>T = k = 65536\<close> the product \<open>T k\<close> is 0 in 32 bits: no addition
  \<open>idx + 0\<close> wraps around, and thread 0 with \<open>N = 1\<close> stays at position 0, which it
  has visited three times when three units of fuel are spent (\<open>blocked_loop_stuck\<close>: it
  runs out of every fuel). The same happens for \<open>k = 0\<close>.
\<close>

theorem loops_terminate_counterexample:
  "gridThreadExtent (thread 65536 65536 0) \<noteq> 0 \<and>
   gridThreadExtent (thread 65536 65536 0) * threadElementExtent (thread 65536 65536 0) = 0 \<and>
   blocked_visits 3 ideal 65536 65536 0 scenario (Fin 1) 1 = [0, 0, 0] \<and>
   out_of_fuel (PixelFinderKernelMultiplePointsPerThreadElements 3 ideal (thread 65536 65536 0)
     scenario (Fin 1) 1)"
  by (simp add: blocked_visits_def invoked_def
      PixelFinderKernelMultiplePointsPerThreadElements_def thread_def numeral_3_eq_3
      block_loop.simps processPoint_def scenario_def Let_def)

subsection \<open>C7: the count and the estimate\<close>



subsection \<open>C8: the empty problem\<close>

text \<open>
  C8, as amended. For \<open>N = 0\<close> the counting loop returns 0, whatever the buffer holds.
  Nothing in the code rejects \<open>N = 0\<close>: the host computes \<open>4.f * P / n\<close> for every
  \<open>n\<close>, for \<open>n = 0\<close> with both operands of the division converted from 0, which is
  not a number in IEEE 754 arithmetic (no trap). In main as written \<open>n\<close> is the
  constant 10000, so that division is never by zero there.
\<close>

theorem no_check_of_empty_problem:
  "count_loop flags 0 0 0 = Some 0 \<and>
   compute_pi fl flags 0 =
     Some (f_div fl (f_mul fl (f_four fl) (f_of_u32 fl 0)) (f_of_u32 fl 0)) \<and>
   compute_pi ideal flags 0 = Some NonFinite \<and>
   main_n = 10000 \<and> main_n \<noteq> 0"
proof -
  have c: "count_loop flags 0 0 0 = Some 0" by (subst count_loop.simps) simp
  show ?thesis by (simp add: c compute_pi_def estimate_def ideal_def main_n_def)
qed

text \<open>
  C8 as stated fails: for \<open>N = 0\<close> the host code is not stopped by any check; it
  returns the result of dividing 0 by 0.
\<close>

theorem no_check_of_empty_problem_counterexample:
  "count_loop [] 0 0 0 = Some 0 \<and> compute_pi ideal [] 0 = Some NonFinite \<and>
   estimate ideal 0 0 = ideal_div (Fin 0) (Fin 0)"
proof -
  have c: "count_loop [] 0 0 0 = Some 0" by (subst count_loop.simps) simp
  show ?thesis by (simp add: c compute_pi_def estimate_def ideal_def)
qed

end
